theory Spec2Isabelle
  imports Main "HOL-Library.Word" "HOL-Library.Signed_Division"
begin

section \<open>The C library \<open>mylib.c\<close>: managed callbacks, \<open>c_divide\<close>, the opaque connection\<close>

text \<open>
  A shallow embedding of \<open>25-ffi-c-interop/c_src/mylib.c\<close>.

  \<^item> \<open>int32_t\<close> and \<open>int\<close> are 32-bit words; \<open>sint\<close> reads them as two's complement.
    The increments \<open>next_handle++\<close> and \<open>query_count++\<close> wrap around (the C standard
    leaves signed overflow undefined; the compiled increment wraps), and every statement
    that depends on the absence of overflow carries it as a hypothesis.
  \<^item> A pointer (data or function) is \<open>NULL\<close> or an address.
  \<^item> The static array \<open>managed_callbacks[MAX_CALLBACKS]\<close> is a function from the index
    to the slot; the loops of the source only read the indices below \<open>MAX_CALLBACKS\<close>.
  \<^item> The callbacks are code of the caller. What \<open>trigger_managed_callbacks\<close> does is
    the list of calls it makes (function pointer, context, value), in order; a call
    through a null function pointer is a fault that ends the run. A callback is taken
    not to call back into the registry while the trigger runs.
  \<^item> \<open>printf\<close> output is a list of records, one per line.
\<close>

subsection \<open>Types\<close>

type_synonym int32_t = "32 word"

type_synonym c_int = "32 word"

datatype ptr = NULL | Addr nat

text \<open>\<open>typedef void (*callback_with_data_t)(void* user_data, int32_t value)\<close>\<close>

type_synonym callback_with_data_t = ptr

record managed_callback_t =
  handle :: int32_t
  callback :: callback_with_data_t
  user_data :: ptr
  active :: c_int

text \<open>The file-scope state of the managed registry: the table and \<open>next_handle\<close>.\<close>

record globals =
  managed_callbacks :: "nat \<Rightarrow> managed_callback_t"
  next_handle :: int32_t

definition MAX_CALLBACKS :: nat where
  "MAX_CALLBACKS = 16"

definition SUCCESS :: int32_t where
  "SUCCESS = 0"

definition ERROR_NULL_POINTER :: int32_t where
  "ERROR_NULL_POINTER = - 1"

definition ERROR_INVALID_INPUT :: int32_t where
  "ERROR_INVALID_INPUT = - 2"

definition ERROR_COMPUTATION_FAILED :: int32_t where
  "ERROR_COMPUTATION_FAILED = - 3"

text \<open>
  Static storage is zero-initialised: every slot starts with \<open>active = 0\<close> and null
  pointers; \<open>static int32_t next_handle = 1\<close>.
\<close>

definition zero_slot :: managed_callback_t where
  "zero_slot = \<lparr>handle = 0, callback = NULL, user_data = NULL, active = 0\<rparr>"

definition initial_globals :: globals where
  "initial_globals = \<lparr>managed_callbacks = (\<lambda>_. zero_slot), next_handle = 1\<rparr>"

subsection \<open>\<open>register_managed_callback\<close>\<close>

text \<open>
  \<^verbatim>\<open>
  for (int i = 0; i < MAX_CALLBACKS; i++) {
      if (!managed_callbacks[i].active) {
          managed_callbacks[i].handle = next_handle++;
          managed_callbacks[i].callback = callback;
          managed_callbacks[i].user_data = user_data;
          managed_callbacks[i].active = 1;
          return managed_callbacks[i].handle;
      }
  }
  return -1;
  \<close>
  The loop from index \<open>i\<close> on; the result is the new state and the returned value.
\<close>

function register_managed_callback_loop ::
  "globals \<Rightarrow> callback_with_data_t \<Rightarrow> ptr \<Rightarrow> nat \<Rightarrow> globals \<times> int32_t" where
  "register_managed_callback_loop g cb ud i =
     (if i < MAX_CALLBACKS then
        (if active (managed_callbacks g i) = 0 then
           (let g' = g\<lparr>managed_callbacks := (managed_callbacks g)
                         (i := (managed_callbacks g i)
                            \<lparr>handle := next_handle g, callback := cb,
                             user_data := ud, active := 1\<rparr>),
                       next_handle := next_handle g + 1\<rparr>
            in (g', handle (managed_callbacks g' i)))
         else register_managed_callback_loop g cb ud (i + 1))
      else (g, - 1))"
  by pat_completeness auto
termination
  by (relation "measure (\<lambda>(g, cb, ud, i). MAX_CALLBACKS - i)") auto

definition register_managed_callback ::
  "globals \<Rightarrow> callback_with_data_t \<Rightarrow> ptr \<Rightarrow> globals \<times> int32_t" where
  "register_managed_callback g cb ud = register_managed_callback_loop g cb ud 0"

subsection \<open>\<open>unregister_managed_callback\<close>\<close>

text \<open>
  \<^verbatim>\<open>
  for (int i = 0; i < MAX_CALLBACKS; i++) {
      if (managed_callbacks[i].active && managed_callbacks[i].handle == handle) {
          managed_callbacks[i].active = 0;
          return;
      }
  }
  \<close>
\<close>

function unregister_managed_callback_loop :: "globals \<Rightarrow> int32_t \<Rightarrow> nat \<Rightarrow> globals" where
  "unregister_managed_callback_loop g h i =
     (if i < MAX_CALLBACKS then
        (if active (managed_callbacks g i) \<noteq> 0 \<and> handle (managed_callbacks g i) = h then
           g\<lparr>managed_callbacks := (managed_callbacks g)
                (i := (managed_callbacks g i)\<lparr>active := 0\<rparr>)\<rparr>
         else unregister_managed_callback_loop g h (i + 1))
      else g)"
  by pat_completeness auto
termination
  by (relation "measure (\<lambda>(g, h, i). MAX_CALLBACKS - i)") auto

definition unregister_managed_callback :: "globals \<Rightarrow> int32_t \<Rightarrow> globals" where
  "unregister_managed_callback g h = unregister_managed_callback_loop g h 0"

subsection \<open>\<open>trigger_managed_callbacks\<close>\<close>

text \<open>
  \<^verbatim>\<open>
  for (int i = 0; i < MAX_CALLBACKS; i++) {
      if (managed_callbacks[i].active) {
          managed_callbacks[i].callback(managed_callbacks[i].user_data, value);
      }
  }
  \<close>
  A call is recorded as \<open>Call f ctx v\<close>. The loop carries the calls made so far. An
  active slot whose function pointer is null stops the run with \<open>NullCall\<close> and the
  calls made before it. The table is not written.
\<close>

datatype call = Call callback_with_data_t ptr int32_t

datatype fault = NullCall "call list"

function trigger_managed_callbacks_loop ::
  "globals \<Rightarrow> int32_t \<Rightarrow> nat \<Rightarrow> call list \<Rightarrow> fault + call list" where
  "trigger_managed_callbacks_loop g v i done_calls =
     (if i < MAX_CALLBACKS then
        (if active (managed_callbacks g i) \<noteq> 0 then
           (if callback (managed_callbacks g i) = NULL then Inl (NullCall done_calls)
            else trigger_managed_callbacks_loop g v (i + 1)
                   (done_calls @
                    [Call (callback (managed_callbacks g i))
                          (user_data (managed_callbacks g i)) v]))
         else trigger_managed_callbacks_loop g v (i + 1) done_calls)
      else Inr done_calls)"
  by pat_completeness auto
termination
  by (relation "measure (\<lambda>(g, v, i, cs). MAX_CALLBACKS - i)") auto

definition trigger_managed_callbacks :: "globals \<Rightarrow> int32_t \<Rightarrow> fault + call list" where
  "trigger_managed_callbacks g v = trigger_managed_callbacks_loop g v 0 []"

text \<open>The calls a run of the trigger made, whether it returned or stopped at a fault.\<close>

fun calls_made :: "fault + call list \<Rightarrow> call list" where
  "calls_made (Inl (NullCall cs)) = cs"
| "calls_made (Inr cs) = cs"

subsection \<open>Sequences of calls\<close>

text \<open>
  The calls that write the registry, as a caller issues them (the trigger writes
  nothing, so a run of it between two of these calls changes none of the results
  below). \<open>exec\<close> is the state after a sequence of calls; \<open>issued\<close> lists what the
  registrations returned, in call order, leaving out the failure value \<open>-1\<close> as a
  caller does; \<open>registrations\<close> counts the \<open>Register\<close> calls.
\<close>

datatype op = Register callback_with_data_t ptr | Unregister int32_t

fun exec :: "globals \<Rightarrow> op list \<Rightarrow> globals" where
  "exec g [] = g"
| "exec g (Register cb ud # ops) = exec (fst (register_managed_callback g cb ud)) ops"
| "exec g (Unregister h # ops) = exec (unregister_managed_callback g h) ops"

fun issued :: "globals \<Rightarrow> op list \<Rightarrow> int32_t list" where
  "issued g [] = []"
| "issued g (Register cb ud # ops) =
     (case register_managed_callback g cb ud of
        (g', h) \<Rightarrow> if h = - 1 then issued g' ops else h # issued g' ops)"
| "issued g (Unregister h # ops) = issued (unregister_managed_callback g h) ops"

fun registrations :: "op list \<Rightarrow> nat" where
  "registrations [] = 0"
| "registrations (Register cb ud # ops) = Suc (registrations ops)"
| "registrations (Unregister h # ops) = registrations ops"

subsection \<open>Views of the table used in the statements\<close>

text \<open>
  The indices of the inactive slots, of the active slots from \<open>i\<close> on, and of the
  active slots that carry handle \<open>h\<close>, each in ascending order; and the call the
  trigger makes for slot \<open>i\<close>.
\<close>

definition inactive_slots :: "globals \<Rightarrow> nat list" where
  "inactive_slots g = filter (\<lambda>i. active (managed_callbacks g i) = 0) [0..<MAX_CALLBACKS]"

definition active_slots_from :: "globals \<Rightarrow> nat \<Rightarrow> nat list" where
  "active_slots_from g i =
     filter (\<lambda>j. active (managed_callbacks g j) \<noteq> 0) [i..<MAX_CALLBACKS]"

definition matching_slots :: "globals \<Rightarrow> int32_t \<Rightarrow> nat list" where
  "matching_slots g h =
     filter (\<lambda>i. active (managed_callbacks g i) \<noteq> 0 \<and> handle (managed_callbacks g i) = h)
       [0..<MAX_CALLBACKS]"

definition call_of :: "globals \<Rightarrow> int32_t \<Rightarrow> nat \<Rightarrow> call" where
  "call_of g v i =
     Call (callback (managed_callbacks g i)) (user_data (managed_callbacks g i)) v"

subsection \<open>The simple registries\<close>

text \<open>
  \<^verbatim>\<open>
  static simple_callback_t simple_callbacks[MAX_CALLBACKS];
  static int simple_callback_count = 0;

  void register_simple_callback(simple_callback_t callback) {
      if (simple_callback_count < MAX_CALLBACKS && callback != NULL) {
          simple_callbacks[simple_callback_count++] = callback;
      }
  }
  \<close>
  and the same with a context pointer in \<open>register_callback_with_data\<close>:
  \<^verbatim>\<open>
  if (callback_with_data_count < MAX_CALLBACKS && callback != NULL) {
      callbacks_with_data[callback_with_data_count].callback = callback;
      callbacks_with_data[callback_with_data_count].user_data = user_data;
      callback_with_data_count++;
  }
  \<close>
  The count is a signed \<open>int\<close> that starts at 0, grows by one under the guard and is
  reset to 0 by the \<open>clear\<close> functions, so it is never negative and the index is the
  count read as a natural number.
\<close>

record simple_globals =
  simple_callbacks :: "nat \<Rightarrow> ptr"
  simple_callback_count :: c_int

definition register_simple_callback :: "simple_globals \<Rightarrow> ptr \<Rightarrow> simple_globals" where
  "register_simple_callback s cb =
     (if sint (simple_callback_count s) < int MAX_CALLBACKS \<and> cb \<noteq> NULL then
        s\<lparr>simple_callbacks := (simple_callbacks s)(unat (simple_callback_count s) := cb),
          simple_callback_count := simple_callback_count s + 1\<rparr>
      else s)"

record callback_entry_t =
  entry_callback :: callback_with_data_t
  entry_user_data :: ptr

record with_data_globals =
  callbacks_with_data :: "nat \<Rightarrow> callback_entry_t"
  callback_with_data_count :: c_int

definition register_callback_with_data ::
  "with_data_globals \<Rightarrow> callback_with_data_t \<Rightarrow> ptr \<Rightarrow> with_data_globals" where
  "register_callback_with_data s cb ud =
     (if sint (callback_with_data_count s) < int MAX_CALLBACKS \<and> cb \<noteq> NULL then
        s\<lparr>callbacks_with_data := (callbacks_with_data s)
             (unat (callback_with_data_count s) :=
                (callbacks_with_data s (unat (callback_with_data_count s)))
                  \<lparr>entry_callback := cb, entry_user_data := ud\<rparr>),
          callback_with_data_count := callback_with_data_count s + 1\<rparr>
      else s)"

subsection \<open>\<open>c_divide\<close>\<close>

text \<open>
  \<^verbatim>\<open>
  int32_t c_divide(int32_t a, int32_t b, int32_t* result) {
      if (result == NULL) return ERROR_NULL_POINTER;
      if (b == 0) return ERROR_INVALID_INPUT;
      *result = a / b;
      return SUCCESS;
  }
  \<close>
  The output pointer is \<open>None\<close> when null and \<open>Some cur\<close> when it points to a cell
  holding \<open>cur\<close>; the function returns the code and the cell after the call. C's \<open>/\<close>
  truncates towards zero (\<open>sdiv\<close> on the integers). \<open>INT32_MIN / -1\<close> has no
  \<open>int32_t\<close> result: the division instruction traps, which is the branch
  \<open>DivideOverflow\<close>.
\<close>

datatype trap = DivideOverflow

definition INT32_MIN :: int32_t where
  "INT32_MIN = - 2147483648"

definition c_divide ::
  "int32_t \<Rightarrow> int32_t \<Rightarrow> int32_t option \<Rightarrow> trap + int32_t \<times> int32_t option" where
  "c_divide a b result =
     (case result of
        None \<Rightarrow> Inr (ERROR_NULL_POINTER, None)
      | Some cur \<Rightarrow>
          if b = 0 then Inr (ERROR_INVALID_INPUT, Some cur)
          else if a = INT32_MIN \<and> b = - 1 then Inl DivideOverflow
          else Inr (SUCCESS, Some (word_of_int (sint a sdiv sint b))))"

subsection \<open>The opaque connection\<close>

text \<open>
  \<^verbatim>\<open>
  struct db_connection {
      char* path;
      int connected;
      char last_error[256];
      int query_count;
  };
  \<close>
  \<open>path\<close> is the string \<open>strdup\<close> returned (\<open>None\<close> when it returned null);
  \<open>last_error\<close> is the C string in the buffer, up to its terminator. A connection
  pointer is \<open>None\<close> when null, and \<open>Some c\<close> when it points to an object in state
  \<open>c\<close>.
\<close>

record db_connection =
  path :: "string option"
  connected :: c_int
  last_error :: string
  query_count :: c_int

text \<open>What \<open>printf\<close> wrote: one record per line, with the arguments of the format.\<close>

datatype printed =
    Opened string
  | Executed c_int string
  | Closed "string option" c_int

text \<open>
  \<open>strstr\<close>: the offset of the first occurrence of the needle in the haystack, \<open>None\<close>
  for C's null result.
\<close>

fun strstr :: "string \<Rightarrow> string \<Rightarrow> nat option" where
  "strstr [] needle = (if needle = [] then Some 0 else None)"
| "strstr (c # cs) needle =
     (if take (length needle) (c # cs) = needle then Some 0
      else map_option Suc (strstr cs needle))"

text \<open>
  \<^verbatim>\<open>
  db_connection_t* db_open(const char* path) {
      if (path == NULL) return NULL;
      db_connection_t* conn = (db_connection_t*)malloc(sizeof(db_connection_t));
      if (conn == NULL) return NULL;
      conn->path = strdup(path);
      conn->connected = 1;
      conn->last_error[0] = '\0';
      conn->query_count = 0;
      printf("[C] Database opened: %s\n", path);
      return conn;
  }
  \<close>
  Whether \<open>malloc\<close> and \<open>strdup\<close> succeed is an input of the model.
\<close>

definition db_open ::
  "string option \<Rightarrow> bool \<Rightarrow> bool \<Rightarrow> db_connection option \<times> printed list" where
  "db_open p malloc_ok strdup_ok =
     (case p of
        None \<Rightarrow> (None, [])
      | Some s \<Rightarrow>
          if \<not> malloc_ok then (None, [])
          else (Some \<lparr>path = (if strdup_ok then Some s else None), connected = 1,
                      last_error = [], query_count = 0\<rparr>,
                [Opened s]))"

text \<open>
  \<^verbatim>\<open>
  int32_t db_execute(db_connection_t* conn, const char* sql) {
      if (conn == NULL || sql == NULL) return ERROR_NULL_POINTER;
      if (!conn->connected) {
          strcpy(conn->last_error, "Not connected");
          return ERROR_INVALID_INPUT;
      }
      conn->query_count++;
      printf("[C] Executed query #%d: %s\n", conn->query_count, sql);
      if (strstr(sql, "ERROR") != NULL) {
          strcpy(conn->last_error, "Simulated query error");
          return ERROR_COMPUTATION_FAILED;
      }
      conn->last_error[0] = '\0';
      return SUCCESS;
  }
  \<close>
  The result: the object after the call, the code, the lines printed.
\<close>

definition db_execute ::
  "db_connection option \<Rightarrow> string option \<Rightarrow> db_connection option \<times> int32_t \<times> printed list"
  where
  "db_execute conn sql =
     (case (conn, sql) of
        (Some c, Some s) \<Rightarrow>
          if connected c = 0 then
            (Some (c\<lparr>last_error := ''Not connected''\<rparr>), ERROR_INVALID_INPUT, [])
          else
            (let c1 = c\<lparr>query_count := query_count c + 1\<rparr>;
                 out = [Executed (query_count c1) s]
             in if strstr s ''ERROR'' \<noteq> None then
                  (Some (c1\<lparr>last_error := ''Simulated query error''\<rparr>),
                   ERROR_COMPUTATION_FAILED, out)
                else (Some (c1\<lparr>last_error := []\<rparr>), SUCCESS, out))
      | _ \<Rightarrow> (conn, ERROR_NULL_POINTER, []))"

text \<open>
  \<^verbatim>\<open>
  const char* db_get_last_error(db_connection_t* conn) {
      if (conn == NULL) return "Null connection";
      return conn->last_error;
  }
  void db_close(db_connection_t* conn) {
      if (conn != NULL) {
          printf("[C] Database closed: %s (queries: %d)\n", conn->path, conn->query_count);
          free(conn->path);
          free(conn);
      }
  }
  \<close>
  After \<open>db_close\<close> the object no longer exists: the state of the pointer's target is
  \<open>None\<close>.
\<close>

definition db_get_last_error :: "db_connection option \<Rightarrow> string" where
  "db_get_last_error conn =
     (case conn of None \<Rightarrow> ''Null connection'' | Some c \<Rightarrow> last_error c)"

definition db_close :: "db_connection option \<Rightarrow> db_connection option \<times> printed list" where
  "db_close conn =
     (case conn of
        None \<Rightarrow> (None, [])
      | Some c \<Rightarrow> (None, [Closed (path c) (query_count c)]))"

text \<open>
  A sequence of \<open>db_execute\<close> calls on one connection: the object after the last call
  and the codes returned, in call order.
\<close>

fun db_execute_all ::
  "db_connection option \<Rightarrow> string option list \<Rightarrow> db_connection option \<times> int32_t list" where
  "db_execute_all conn [] = (conn, [])"
| "db_execute_all conn (sql # sqls) =
     (case db_execute conn sql of
        (conn', code, out) \<Rightarrow>
          (case db_execute_all conn' sqls of (conn'', codes) \<Rightarrow> (conn'', code # codes)))"

subsection \<open>Call sequences and states used as concrete inputs\<close>

definition sixteen_registrations :: "op list" where
  "sixteen_registrations =
     map (\<lambda>i. Register (Addr (100 + i)) (Addr (200 + i))) [0..<MAX_CALLBACKS]"

definition three_registered_one_revoked :: "op list" where
  "three_registered_one_revoked =
     [Register (Addr 101) (Addr 201), Register (Addr 102) (Addr 202),
      Register (Addr 103) (Addr 203), Unregister 2]"

definition one_registered :: globals where
  "one_registered = fst (register_managed_callback initial_globals (Addr 101) (Addr 201))"

definition mixed_calls :: "op list" where
  "mixed_calls =
     [Register (Addr 101) (Addr 201), Register (Addr 102) (Addr 202), Unregister 1,
      Register (Addr 103) (Addr 203), Unregister 7, Register (Addr 104) NULL]"

definition three_pairs :: "(callback_with_data_t \<times> ptr) list" where
  "three_pairs = [(Addr 101, Addr 201), (Addr 102, Addr 202), (Addr 103, NULL)]"

definition no_simple_callbacks :: simple_globals where
  "no_simple_callbacks = \<lparr>simple_callbacks = (\<lambda>_. NULL), simple_callback_count = 0\<rparr>"

definition no_callbacks_with_data :: with_data_globals where
  "no_callbacks_with_data =
     \<lparr>callbacks_with_data = (\<lambda>_. \<lparr>entry_callback = NULL, entry_user_data = NULL\<rparr>),
      callback_with_data_count = 0\<rparr>"

definition two_registered :: globals where
  "two_registered =
     exec initial_globals [Register (Addr 101) (Addr 201), Register (Addr 102) (Addr 202)]"

definition null_then_callback :: "op list" where
  "null_then_callback = [Register NULL NULL, Register (Addr 102) (Addr 202)]"

definition opened_x :: db_connection where
  "opened_x = \<lparr>path = Some ''x'', connected = 1, last_error = [], query_count = 0\<rparr>"

definition three_commands :: "string option list" where
  "three_commands = [Some ''SELECT 1'', Some ''DO ERROR'', None]"

subsection \<open>Invariants of the registry\<close>

text \<open>
  The counter is positive and above every handle stored in the table; no two active
  slots carry the same handle. Both hold initially and are kept by every call as long
  as the counter does not overflow.
\<close>

definition handles_below :: "globals \<Rightarrow> bool" where
  "handles_below g \<longleftrightarrow>
     0 < sint (next_handle g) \<and>
     (\<forall>i. i < MAX_CALLBACKS \<longrightarrow> sint (handle (managed_callbacks g i)) < sint (next_handle g))"

definition active_handles_distinct :: "globals \<Rightarrow> bool" where
  "active_handles_distinct g \<longleftrightarrow>
     (\<forall>i j. i < MAX_CALLBACKS \<and> j < MAX_CALLBACKS \<and>
            active (managed_callbacks g i) \<noteq> 0 \<and> active (managed_callbacks g j) \<noteq> 0 \<and>
            handle (managed_callbacks g i) = handle (managed_callbacks g j) \<longrightarrow> i = j)"

text \<open>
  \<open>filled_to k g\<close>: exactly the slots below \<open>k\<close> are active and the counter is \<open>k + 1\<close>,
  the state after \<open>k\<close> registrations from the initial state.
\<close>

definition filled_to :: "nat \<Rightarrow> globals \<Rightarrow> bool" where
  "filled_to k g \<longleftrightarrow>
     (\<forall>j. j < MAX_CALLBACKS \<longrightarrow> (active (managed_callbacks g j) = 0 \<longleftrightarrow> k \<le> j)) \<and>
     next_handle g = of_nat (Suc k)"

declare register_managed_callback_loop.simps [simp del]
declare unregister_managed_callback_loop.simps [simp del]
declare trigger_managed_callbacks_loop.simps [simp del]

subsection \<open>Facts about the scans\<close>

lemma register_loop_full:
  "\<forall>j. i \<le> j \<and> j < MAX_CALLBACKS \<longrightarrow> active (managed_callbacks g j) \<noteq> 0 \<Longrightarrow>
   register_managed_callback_loop g cb ud i = (g, - 1)"
proof (induction g cb ud i rule: register_managed_callback_loop.induct)
  case (1 g cb ud i)
  show ?case
  proof (cases "i < MAX_CALLBACKS")
    case True
    with 1 show ?thesis
      by (subst register_managed_callback_loop.simps) simp
  next
    case False
    then show ?thesis
      by (subst register_managed_callback_loop.simps) simp
  qed
qed

lemma register_loop_free:
  "i \<le> k \<Longrightarrow> k < MAX_CALLBACKS \<Longrightarrow> active (managed_callbacks g k) = 0 \<Longrightarrow>
   \<forall>j. i \<le> j \<and> j < k \<longrightarrow> active (managed_callbacks g j) \<noteq> 0 \<Longrightarrow>
   register_managed_callback_loop g cb ud i =
     (g\<lparr>managed_callbacks := (managed_callbacks g)
           (k := (managed_callbacks g k)
              \<lparr>handle := next_handle g, callback := cb, user_data := ud, active := 1\<rparr>),
         next_handle := next_handle g + 1\<rparr>,
      next_handle g)"
proof (induction g cb ud i rule: register_managed_callback_loop.induct)
  case (1 g cb ud i)
  show ?case
  proof (cases "i = k")
    case True
    with 1 show ?thesis
      by (subst register_managed_callback_loop.simps) simp
  next
    case False
    with 1 have lt: "i < MAX_CALLBACKS" and act: "active (managed_callbacks g i) \<noteq> 0"
      and le: "i + 1 \<le> k" by auto
    from 1(5) le have rest: "\<forall>j. i + 1 \<le> j \<and> j < k \<longrightarrow> active (managed_callbacks g j) \<noteq> 0"
      by auto
    have "register_managed_callback_loop g cb ud i =
          register_managed_callback_loop g cb ud (i + 1)"
      using lt act by (subst register_managed_callback_loop.simps) simp
    also note "1.IH" [OF lt act le "1.prems"(2) "1.prems"(3) rest]
    finally show ?thesis .
  qed
qed

lemma unregister_loop_none:
  "\<forall>j. i \<le> j \<and> j < MAX_CALLBACKS \<longrightarrow>
       \<not> (active (managed_callbacks g j) \<noteq> 0 \<and> handle (managed_callbacks g j) = h) \<Longrightarrow>
   unregister_managed_callback_loop g h i = g"
proof (induction g h i rule: unregister_managed_callback_loop.induct)
  case (1 g h i)
  show ?case
  proof (cases "i < MAX_CALLBACKS")
    case True
    with 1 show ?thesis
      by (subst unregister_managed_callback_loop.simps) auto
  next
    case False
    then show ?thesis
      by (subst unregister_managed_callback_loop.simps) simp
  qed
qed

lemma unregister_loop_found:
  "i \<le> k \<Longrightarrow> k < MAX_CALLBACKS \<Longrightarrow>
   active (managed_callbacks g k) \<noteq> 0 \<Longrightarrow> handle (managed_callbacks g k) = h \<Longrightarrow>
   \<forall>j. i \<le> j \<and> j < k \<longrightarrow>
       \<not> (active (managed_callbacks g j) \<noteq> 0 \<and> handle (managed_callbacks g j) = h) \<Longrightarrow>
   unregister_managed_callback_loop g h i =
     g\<lparr>managed_callbacks := (managed_callbacks g)
          (k := (managed_callbacks g k)\<lparr>active := 0\<rparr>)\<rparr>"
proof (induction g h i rule: unregister_managed_callback_loop.induct)
  case (1 g h i)
  show ?case
  proof (cases "i = k")
    case True
    with 1 show ?thesis
      by (subst unregister_managed_callback_loop.simps) simp
  next
    case False
    with 1 have lt: "i < MAX_CALLBACKS" and le: "i + 1 \<le> k"
      and no: "\<not> (active (managed_callbacks g i) \<noteq> 0 \<and> handle (managed_callbacks g i) = h)"
      by auto
    from 1(6) le have rest: "\<forall>j. i + 1 \<le> j \<and> j < k \<longrightarrow>
       \<not> (active (managed_callbacks g j) \<noteq> 0 \<and> handle (managed_callbacks g j) = h)"
      by auto
    have "unregister_managed_callback_loop g h i =
          unregister_managed_callback_loop g h (i + 1)"
      using lt no by (subst unregister_managed_callback_loop.simps) auto
    also note "1.IH" [OF lt no le "1.prems"(2) "1.prems"(3) "1.prems"(4) rest]
    finally show ?thesis .
  qed
qed

lemma active_slots_from_step:
  "i < MAX_CALLBACKS \<Longrightarrow>
   active_slots_from g i =
     (if active (managed_callbacks g i) \<noteq> 0 then i # active_slots_from g (i + 1)
      else active_slots_from g (i + 1))"
  by (simp add: active_slots_from_def upt_conv_Cons)

lemma active_slots_from_end:
  "\<not> i < MAX_CALLBACKS \<Longrightarrow> active_slots_from g i = []"
  by (simp add: active_slots_from_def)

lemma trigger_loop_calls:
  "calls_made (trigger_managed_callbacks_loop g v i cs) =
   cs @ map (call_of g v)
          (takeWhile (\<lambda>j. callback (managed_callbacks g j) \<noteq> NULL) (active_slots_from g i))"
proof (induction g v i cs rule: trigger_managed_callbacks_loop.induct)
  case (1 g v i cs)
  show ?case
  proof (cases "i < MAX_CALLBACKS")
    case False
    then show ?thesis
      by (subst trigger_managed_callbacks_loop.simps) (simp add: active_slots_from_end)
  next
    case lt: True
    show ?thesis
    proof (cases "active (managed_callbacks g i) \<noteq> 0")
      case False
      with lt "1.IH"(2) show ?thesis
        by (subst trigger_managed_callbacks_loop.simps) (simp add: active_slots_from_step)
    next
      case act: True
      show ?thesis
      proof (cases "callback (managed_callbacks g i) = NULL")
        case True
        with lt act show ?thesis
          by (subst trigger_managed_callbacks_loop.simps) (simp add: active_slots_from_step)
      next
        case False
        with lt act "1.IH"(1) show ?thesis
          by (subst trigger_managed_callbacks_loop.simps)
             (simp add: active_slots_from_step call_of_def)
      qed
    qed
  qed
qed

lemma trigger_loop_returns:
  "\<forall>j. i \<le> j \<and> j < MAX_CALLBACKS \<and> active (managed_callbacks g j) \<noteq> 0 \<longrightarrow>
        callback (managed_callbacks g j) \<noteq> NULL \<Longrightarrow>
   trigger_managed_callbacks_loop g v i cs = Inr (cs @ map (call_of g v) (active_slots_from g i))"
proof (induction g v i cs rule: trigger_managed_callbacks_loop.induct)
  case (1 g v i cs)
  show ?case
  proof (cases "i < MAX_CALLBACKS")
    case False
    then show ?thesis
      by (subst trigger_managed_callbacks_loop.simps) (simp add: active_slots_from_end)
  next
    case lt: True
    from "1.prems" have rest:
      "\<forall>j. i + 1 \<le> j \<and> j < MAX_CALLBACKS \<and> active (managed_callbacks g j) \<noteq> 0 \<longrightarrow>
        callback (managed_callbacks g j) \<noteq> NULL" by auto
    show ?thesis
    proof (cases "active (managed_callbacks g i) \<noteq> 0")
      case False
      with lt "1.IH"(2) [OF lt _ rest] show ?thesis
        by (subst trigger_managed_callbacks_loop.simps) (simp add: active_slots_from_step)
    next
      case act: True
      with lt "1.prems" have nn: "callback (managed_callbacks g i) \<noteq> NULL" by auto
      with lt act "1.IH"(1) [OF lt act nn rest] show ?thesis
        by (subst trigger_managed_callbacks_loop.simps)
           (simp add: active_slots_from_step call_of_def)
    qed
  qed
qed

lemma trigger_loop_faults:
  "i \<le> k \<Longrightarrow> k < MAX_CALLBACKS \<Longrightarrow> active (managed_callbacks g k) \<noteq> 0 \<Longrightarrow>
   callback (managed_callbacks g k) = NULL \<Longrightarrow>
   \<exists>done_calls. trigger_managed_callbacks_loop g v i cs = Inl (NullCall done_calls)"
proof (induction g v i cs rule: trigger_managed_callbacks_loop.induct)
  case (1 g v i cs)
  show ?case
  proof (cases "i = k")
    case True
    with 1 show ?thesis
      by (subst trigger_managed_callbacks_loop.simps) simp
  next
    case False
    with 1 have lt: "i < MAX_CALLBACKS" and le: "i + 1 \<le> k" by auto
    show ?thesis
    proof (cases "active (managed_callbacks g i) \<noteq> 0")
      case False
      with lt "1.IH"(2) [OF lt _ le "1.prems"(2,3,4)] show ?thesis
        by (subst trigger_managed_callbacks_loop.simps) simp
    next
      case act: True
      show ?thesis
      proof (cases "callback (managed_callbacks g i) = NULL")
        case True
        with lt act show ?thesis
          by (subst trigger_managed_callbacks_loop.simps) simp
      next
        case nn: False
        with lt act "1.IH"(1) [OF lt act nn le "1.prems"(2,3,4)] show ?thesis
          by (subst trigger_managed_callbacks_loop.simps) simp
      qed
    qed
  qed
qed

lemma filter_upt_hd_least:
  "filter P [i..<n] = k # rest \<Longrightarrow> i \<le> k \<and> k < n \<and> P k \<and> (\<forall>j. i \<le> j \<and> j < k \<longrightarrow> \<not> P j)"
proof (induction "n - i" arbitrary: i)
  case 0
  then show ?case by simp
next
  case (Suc d)
  then have lt: "i < n" by simp
  show ?case
  proof (cases "P i")
    case True
    with Suc.prems lt show ?thesis by (auto simp add: upt_conv_Cons)
  next
    case False
    with Suc.prems lt have "filter P [Suc i..<n] = k # rest" by (simp add: upt_conv_Cons)
    moreover from Suc.hyps(2) have "d = n - Suc i" by simp
    ultimately have "Suc i \<le> k \<and> k < n \<and> P k \<and> (\<forall>j. Suc i \<le> j \<and> j < k \<longrightarrow> \<not> P j)"
      using Suc.hyps(1) by blast
    with False show ?thesis
      by (metis Suc_leD Suc_leI le_neq_implies_less)
  qed
qed

lemma filter_upt_empty:
  "filter P [i..<n] = [] \<Longrightarrow> \<forall>j. i \<le> j \<and> j < n \<longrightarrow> \<not> P j"
  by (auto simp: filter_empty_conv)

lemma register_full:
  "inactive_slots g = [] \<Longrightarrow> register_managed_callback g cb ud = (g, - 1)"
  unfolding register_managed_callback_def inactive_slots_def
  by (rule register_loop_full) (auto simp: filter_empty_conv)

lemma inactive_slots_hd:
  assumes "inactive_slots g \<noteq> []"
  shows "hd (inactive_slots g) < MAX_CALLBACKS"
    and "active (managed_callbacks g (hd (inactive_slots g))) = 0"
    and "\<forall>j. j < hd (inactive_slots g) \<longrightarrow> active (managed_callbacks g j) \<noteq> 0"
proof -
  from assms obtain k rest where eq: "inactive_slots g = k # rest"
    by (cases "inactive_slots g") auto
  from filter_upt_hd_least [OF eq [unfolded inactive_slots_def]]
  show "hd (inactive_slots g) < MAX_CALLBACKS"
    and "active (managed_callbacks g (hd (inactive_slots g))) = 0"
    and "\<forall>j. j < hd (inactive_slots g) \<longrightarrow> active (managed_callbacks g j) \<noteq> 0"
    by (simp_all add: eq)
qed

lemma register_free:
  assumes "inactive_slots g \<noteq> []"
  shows "register_managed_callback g cb ud =
     (g\<lparr>managed_callbacks := (managed_callbacks g)
           (hd (inactive_slots g) := (managed_callbacks g (hd (inactive_slots g)))
              \<lparr>handle := next_handle g, callback := cb, user_data := ud, active := 1\<rparr>),
         next_handle := next_handle g + 1\<rparr>,
      next_handle g)"
  unfolding register_managed_callback_def
  using inactive_slots_hd [OF assms]
  by (intro register_loop_free) auto

lemma matching_slots_hd:
  assumes "matching_slots g h \<noteq> []"
  shows "hd (matching_slots g h) < MAX_CALLBACKS"
    and "active (managed_callbacks g (hd (matching_slots g h))) \<noteq> 0"
    and "handle (managed_callbacks g (hd (matching_slots g h))) = h"
    and "\<forall>j. j < hd (matching_slots g h) \<longrightarrow>
           \<not> (active (managed_callbacks g j) \<noteq> 0 \<and> handle (managed_callbacks g j) = h)"
proof -
  from assms obtain k rest where eq: "matching_slots g h = k # rest"
    by (cases "matching_slots g h") auto
  from filter_upt_hd_least [OF eq [unfolded matching_slots_def]]
  show "hd (matching_slots g h) < MAX_CALLBACKS"
    and "active (managed_callbacks g (hd (matching_slots g h))) \<noteq> 0"
    and "handle (managed_callbacks g (hd (matching_slots g h))) = h"
    and "\<forall>j. j < hd (matching_slots g h) \<longrightarrow>
           \<not> (active (managed_callbacks g j) \<noteq> 0 \<and> handle (managed_callbacks g j) = h)"
    by (simp_all add: eq)
qed

lemma unregister_none:
  "matching_slots g h = [] \<Longrightarrow> unregister_managed_callback g h = g"
  unfolding unregister_managed_callback_def matching_slots_def
  by (rule unregister_loop_none) (auto simp: filter_empty_conv)

lemma unregister_found:
  assumes "matching_slots g h \<noteq> []"
  shows "unregister_managed_callback g h =
     g\<lparr>managed_callbacks := (managed_callbacks g)
          (hd (matching_slots g h) :=
             (managed_callbacks g (hd (matching_slots g h)))\<lparr>active := 0\<rparr>)\<rparr>"
  unfolding unregister_managed_callback_def
  using matching_slots_hd [OF assms]
  by (intro unregister_loop_found) auto

subsection \<open>Facts about the invariants and about sequences of calls\<close>

lemma sint_succ:
  fixes x :: int32_t
  assumes "sint x < 2147483647"
  shows "sint (x + 1) = sint x + 1"
proof -
  have "- (2 ^ 31) \<le> sint x"
    using sint_ge [of x] by simp
  with assms have "signed_take_bit 31 (sint x + 1) = sint x + 1"
    by (intro signed_take_bit_int_eq_self) simp_all
  then show ?thesis
    by (simp add: sint_word_ariths)
qed

lemma register_cases:
  "(inactive_slots g = [] \<and> register_managed_callback g cb ud = (g, - 1)) \<or>
   (inactive_slots g \<noteq> [] \<and>
    register_managed_callback g cb ud =
      (g\<lparr>managed_callbacks := (managed_callbacks g)
           (hd (inactive_slots g) := (managed_callbacks g (hd (inactive_slots g)))
              \<lparr>handle := next_handle g, callback := cb, user_data := ud, active := 1\<rparr>),
         next_handle := next_handle g + 1\<rparr>,
       next_handle g))"
  using register_full [of g cb ud] register_free [of g cb ud] by blast

lemma initial_invariants:
  "handles_below initial_globals" "active_handles_distinct initial_globals"
  by (simp_all add: handles_below_def active_handles_distinct_def initial_globals_def zero_slot_def)

lemma next_handle_unregister [simp]:
  "next_handle (unregister_managed_callback g h) = next_handle g"
  using unregister_none [of g h] unregister_found [of g h]
  by (cases "matching_slots g h = []") simp_all

lemma handle_unregister [simp]:
  "handle (managed_callbacks (unregister_managed_callback g h) i) = handle (managed_callbacks g i)"
  using unregister_none [of g h] unregister_found [of g h]
  by (cases "matching_slots g h = []") simp_all

lemma callback_unregister [simp]:
  "callback (managed_callbacks (unregister_managed_callback g h) i) =
   callback (managed_callbacks g i)"
  using unregister_none [of g h] unregister_found [of g h]
  by (cases "matching_slots g h = []") simp_all

lemma user_data_unregister [simp]:
  "user_data (managed_callbacks (unregister_managed_callback g h) i) =
   user_data (managed_callbacks g i)"
  using unregister_none [of g h] unregister_found [of g h]
  by (cases "matching_slots g h = []") simp_all

lemma active_unregister:
  "active (managed_callbacks (unregister_managed_callback g h) i) \<noteq> 0 \<Longrightarrow>
   active (managed_callbacks g i) \<noteq> 0"
  using unregister_none [of g h] unregister_found [of g h]
  by (cases "matching_slots g h = []") (simp_all split: if_splits)

lemma handles_below_unregister:
  "handles_below g \<Longrightarrow> handles_below (unregister_managed_callback g h)"
  by (simp add: handles_below_def)

lemma active_handles_distinct_unregister:
  "active_handles_distinct g \<Longrightarrow> active_handles_distinct (unregister_managed_callback g h)"
  unfolding active_handles_distinct_def
  by (auto dest!: active_unregister)

lemma handles_below_register:
  assumes "handles_below g" and "sint (next_handle g) < 2147483647"
  shows "handles_below (fst (register_managed_callback g cb ud))"
proof (cases "inactive_slots g = []")
  case True
  with assms show ?thesis by (simp add: register_full)
next
  case False
  with assms show ?thesis
    by (auto simp: register_free handles_below_def sint_succ)
qed

lemma active_handles_distinct_register:
  assumes "handles_below g" and "active_handles_distinct g"
  shows "active_handles_distinct (fst (register_managed_callback g cb ud))"
proof (cases "inactive_slots g = []")
  case True
  with assms show ?thesis by (simp add: register_full)
next
  case False
  from assms(1) have below: "\<And>i. i < MAX_CALLBACKS \<Longrightarrow> handle (managed_callbacks g i) \<noteq> next_handle g"
    by (auto simp: handles_below_def)
  from False assms(2) below show ?thesis
    unfolding active_handles_distinct_def
    by (auto simp: register_free split: if_splits; blast)
qed


lemma next_handle_register:
  "sint (next_handle g) < 2147483647 \<Longrightarrow>
   sint (next_handle (fst (register_managed_callback g cb ud))) =
     (if inactive_slots g = [] then sint (next_handle g) else sint (next_handle g) + 1)"
  using register_cases [of g cb ud] by (auto simp: sint_succ)

lemma exec_invariants:
  "handles_below g \<Longrightarrow> active_handles_distinct g \<Longrightarrow>
   sint (next_handle g) + int (registrations ops) \<le> 2147483647 \<Longrightarrow>
   handles_below (exec g ops) \<and> active_handles_distinct (exec g ops) \<and>
   sint (next_handle g) \<le> sint (next_handle (exec g ops)) \<and>
   sint (next_handle (exec g ops)) \<le> sint (next_handle g) + int (registrations ops)"
proof (induction g ops rule: exec.induct)
  case (1 g)
  then show ?case by simp
next
  case (2 g cb ud ops)
  let ?g = "fst (register_managed_callback g cb ud)"
  from 2(4) have lt: "sint (next_handle g) < 2147483647" by simp
  have nh: "sint (next_handle ?g) \<le> sint (next_handle g) + 1"
    "sint (next_handle g) \<le> sint (next_handle ?g)"
    using next_handle_register [OF lt, of cb ud] by (simp_all split: if_splits)
  have "handles_below ?g" "active_handles_distinct ?g"
    using 2(2,3) lt by (simp_all add: handles_below_register active_handles_distinct_register)
  moreover from nh 2(4) have "sint (next_handle ?g) + int (registrations ops) \<le> 2147483647"
    by simp
  ultimately have "handles_below (exec ?g ops) \<and> active_handles_distinct (exec ?g ops) \<and>
     sint (next_handle ?g) \<le> sint (next_handle (exec ?g ops)) \<and>
     sint (next_handle (exec ?g ops)) \<le> sint (next_handle ?g) + int (registrations ops)"
    by (rule "2.IH")
  with nh show ?case by simp
next
  case (3 g h ops)
  then show ?case
    by (simp add: handles_below_unregister active_handles_distinct_unregister)
qed

lemma issued_sorted:
  "0 < sint (next_handle g) \<Longrightarrow>
   sint (next_handle g) + int (registrations ops) \<le> 2147483647 \<Longrightarrow>
   sorted_wrt (\<lambda>a b. sint a < sint b) (issued g ops) \<and>
   (\<forall>h \<in> set (issued g ops). sint (next_handle g) \<le> sint h \<and>
                                sint h < sint (next_handle g) + int (registrations ops))"
proof (induction g ops rule: issued.induct)
  case (1 g)
  then show ?case by simp
next
  case (2 g cb ud ops)
  from 2(4) have lt: "sint (next_handle g) < 2147483647" by simp
  show ?case
  proof (cases "inactive_slots g = []")
    case True
    then have reg: "register_managed_callback g cb ud = (g, - 1)"
      by (rule register_full)
    from "2.IH"(1) [OF reg [symmetric] refl] 2(3,4) reg show ?thesis
      by auto
  next
    case False
    from register_free [OF False, of cb ud]
    obtain g' where reg: "register_managed_callback g cb ud = (g', next_handle g)"
      and nh: "next_handle g' = next_handle g + 1"
      by simp
    from 2(3) have ne: "next_handle g \<noteq> - 1" by auto
    from nh lt have nh': "sint (next_handle g') = sint (next_handle g) + 1"
      by (simp add: sint_succ)
    with 2(3,4) have "0 < sint (next_handle g')"
      "sint (next_handle g') + int (registrations ops) \<le> 2147483647" by simp_all
    from "2.IH"(2) [OF reg [symmetric] ne this] nh' ne show ?thesis
      by (auto simp: reg)
  qed
next
  case (3 g h ops)
  then show ?case by simp
qed

subsection \<open>Evaluation at concrete inputs\<close>

lemma slots_upt: "[0..<MAX_CALLBACKS] = [0, 1, 2, 3, 4, 5, 6, 7, 8, 9, 10, 11, 12, 13, 14, 15]"
  unfolding MAX_CALLBACKS_def by (simp add: upt_rec)

lemmas run_simps = register_managed_callback_def register_managed_callback_loop.simps
  unregister_managed_callback_def unregister_managed_callback_loop.simps
  trigger_managed_callbacks_def trigger_managed_callbacks_loop.simps
  MAX_CALLBACKS_def initial_globals_def zero_slot_def

lemma inactive_slots_Nil_iff:
  "inactive_slots g = [] \<longleftrightarrow>
   (\<forall>i. i < MAX_CALLBACKS \<longrightarrow> active (managed_callbacks g i) \<noteq> 0)"
  by (auto simp: inactive_slots_def filter_empty_conv)

lemma inactive_slots_sixteen:
  "inactive_slots (exec initial_globals sixteen_registrations) = []"
  unfolding inactive_slots_def sixteen_registrations_def slots_upt
  by (simp add: run_simps)

lemma inactive_slots_three_one:
  "inactive_slots (exec initial_globals three_registered_one_revoked) =
     [1, 3, 4, 5, 6, 7, 8, 9, 10, 11, 12, 13, 14, 15]"
  unfolding inactive_slots_def three_registered_one_revoked_def slots_upt
  by (simp add: run_simps)

lemma slot_overwrite:
  "r\<lparr>handle := a, callback := b, user_data := c, active := d\<rparr> =
   \<lparr>handle = a, callback = b, user_data = c, active = d\<rparr>"
  by (cases r) simp

subsection \<open>Facts about handles, revocation and the trigger\<close>

lemma small_handle_not_failure:
  assumes "k < 16"
  shows "(of_nat (Suc k) :: int32_t) \<noteq> - 1"
proof
  assume eq: "(of_nat (Suc k) :: int32_t) = - 1"
  from assms have "Suc k < 2 ^ LENGTH(32)" by simp
  with eq have "unat (- 1 :: int32_t) = Suc k"
    by (rule of_nat_inverse)
  with assms show False
    by (simp add: unsigned_minus_1_eq_mask mask_eq_exp_minus_1)
qed

lemma sorted_wrt_sint_distinct:
  "sorted_wrt (\<lambda>a b. sint a < sint b) (hs :: int32_t list) \<Longrightarrow> distinct hs"
  by (induction hs) auto

lemma filled_to_initial: "filled_to 0 initial_globals"
  by (simp add: filled_to_def initial_globals_def zero_slot_def)

lemma filled_to_register:
  assumes "filled_to k g" and "k < MAX_CALLBACKS"
  shows "\<exists>g'. register_managed_callback g cb ud = (g', of_nat (Suc k)) \<and> filled_to (Suc k) g'"
proof -
  from assms have "active (managed_callbacks g k) = 0"
    and "\<forall>j. 0 \<le> j \<and> j < k \<longrightarrow> active (managed_callbacks g j) \<noteq> 0"
    by (auto simp: filled_to_def)
  from register_loop_free [OF _ assms(2) this, of cb ud] assms
  show ?thesis
    unfolding register_managed_callback_def
    by (auto simp: filled_to_def)
qed

lemma issued_fill:
  "filled_to k g \<Longrightarrow> k + length args \<le> MAX_CALLBACKS \<Longrightarrow>
   issued g (map (\<lambda>(cb, ud). Register cb ud) args) =
     map of_nat [Suc k..<Suc k + length args]"
proof (induction args arbitrary: k g)
  case Nil
  then show ?case by simp
next
  case (Cons a args)
  obtain cb ud where a: "a = (cb, ud)" by (cases a)
  from Cons.prems have lt: "k < MAX_CALLBACKS" by simp
  from filled_to_register [OF Cons.prems(1) lt, of cb ud]
  obtain g' where reg: "register_managed_callback g cb ud = (g', of_nat (Suc k))"
    and f: "filled_to (Suc k) g'" by blast
  from lt have ne: "(of_nat (Suc k) :: int32_t) \<noteq> - 1"
    by (intro small_handle_not_failure) (simp add: MAX_CALLBACKS_def)
  from Cons.prems have "Suc k + length args \<le> MAX_CALLBACKS" by simp
  from Cons.IH [OF f this]
  have "issued g' (map (\<lambda>(cb, ud). Register cb ud) args) =
     map of_nat [Suc (Suc k)..<Suc (Suc k) + length args]" .
  with reg ne a show ?case
    by (simp add: upt_conv_Cons del: of_nat_Suc upt_Suc)
qed

lemma issued_initial_sorted:
  assumes "registrations ops < 2147483647"
  shows "sorted_wrt (\<lambda>a b. sint a < sint b) (issued initial_globals ops)"
  using issued_sorted [of initial_globals ops] assms
  by (simp add: initial_globals_def)

lemma issued_below_counter:
  "handles_below g \<Longrightarrow> active_handles_distinct g \<Longrightarrow>
   sint (next_handle g) + int (registrations ops) \<le> 2147483647 \<Longrightarrow>
   \<forall>h \<in> set (issued g ops). sint h < sint (next_handle (exec g ops))"
proof (induction g ops rule: issued.induct)
  case (1 g)
  then show ?case by simp
next
  case (2 g cb ud ops)
  from 2(5) have lt: "sint (next_handle g) < 2147483647" by simp
  obtain g' h where reg: "register_managed_callback g cb ud = (g', h)"
    by (cases "register_managed_callback g cb ud")
  then have g': "g' = fst (register_managed_callback g cb ud)" by simp
  have inv: "handles_below g'" "active_handles_distinct g'"
    unfolding g' using 2(3,4) lt
    by (simp_all add: handles_below_register active_handles_distinct_register)
  have nh: "sint (next_handle g') \<le> sint (next_handle g) + 1"
    "sint (next_handle g) \<le> sint (next_handle g')"
    unfolding g' using next_handle_register [OF lt, of cb ud] by (simp_all split: if_splits)
  with 2(5) have bound: "sint (next_handle g') + int (registrations ops) \<le> 2147483647"
    by simp
  from exec_invariants [OF inv bound]
  have mono: "sint (next_handle g') \<le> sint (next_handle (exec g' ops))" by simp
  show ?case
  proof (cases "h = - 1")
    case True
    from "2.IH"(1) [OF reg [symmetric] True inv bound] reg True show ?thesis
      by simp
  next
    case False
    with reg register_cases [of g cb ud] have h: "h = next_handle g"
      and "next_handle g' = next_handle g + 1" by auto
    with lt have "sint (next_handle g') = sint h + 1"
      by (simp add: sint_succ)
    with mono have "sint h < sint (next_handle (exec g' ops))" by simp
    with "2.IH"(2) [OF reg [symmetric] False inv bound] reg False show ?thesis
      by simp
  qed
next
  case (3 g h ops)
  then show ?case
    by (simp add: handles_below_unregister active_handles_distinct_unregister)
qed

lemma reachable_invariants:
  assumes "registrations ops < 2147483647"
  shows "handles_below (exec initial_globals ops)"
    and "active_handles_distinct (exec initial_globals ops)"
    and "\<forall>h \<in> set (issued initial_globals ops).
           sint h < sint (next_handle (exec initial_globals ops))"
proof -
  from assms have b: "sint (next_handle initial_globals) + int (registrations ops) \<le> 2147483647"
    by (simp add: initial_globals_def)
  from exec_invariants [OF initial_invariants b]
  show "handles_below (exec initial_globals ops)"
    and "active_handles_distinct (exec initial_globals ops)" by simp_all
  from issued_below_counter [OF initial_invariants b]
  show "\<forall>h \<in> set (issued initial_globals ops).
           sint h < sint (next_handle (exec initial_globals ops))" .
qed

lemma matching_slots_Nil_iff:
  "matching_slots g h = [] \<longleftrightarrow>
   (\<forall>i. i < MAX_CALLBACKS \<longrightarrow>
      \<not> (active (managed_callbacks g i) \<noteq> 0 \<and> handle (managed_callbacks g i) = h))"
  by (auto simp: matching_slots_def filter_empty_conv)

lemma unregister_twice:
  assumes "active_handles_distinct g"
  shows "unregister_managed_callback (unregister_managed_callback g h) h =
         unregister_managed_callback g h"
proof (cases "matching_slots g h = []")
  case True
  then show ?thesis by (simp add: unregister_none)
next
  case False
  let ?k = "hd (matching_slots g h)"
  let ?g = "unregister_managed_callback g h"
  note k = matching_slots_hd [OF False]
  have "matching_slots ?g h = []"
    unfolding matching_slots_Nil_iff
  proof (intro allI impI notI)
    fix i
    assume i: "i < MAX_CALLBACKS"
      and m: "active (managed_callbacks ?g i) \<noteq> 0 \<and> handle (managed_callbacks ?g i) = h"
    from m have ne: "i \<noteq> ?k"
      by (auto simp: unregister_found [OF False])
    from m have "active (managed_callbacks g i) \<noteq> 0" "handle (managed_callbacks g i) = h"
      by (auto dest: active_unregister)
    moreover from assms have "\<And>a b. a < MAX_CALLBACKS \<Longrightarrow> b < MAX_CALLBACKS \<Longrightarrow>
        active (managed_callbacks g a) \<noteq> 0 \<Longrightarrow> active (managed_callbacks g b) \<noteq> 0 \<Longrightarrow>
        handle (managed_callbacks g a) = handle (managed_callbacks g b) \<Longrightarrow> a = b"
      unfolding active_handles_distinct_def by blast
    ultimately have "i = ?k"
      using i k(1,2,3) by simp
    with ne show False by simp
  qed
  then show ?thesis by (rule unregister_none)
qed

lemma call_of_unregister [simp]:
  "call_of (unregister_managed_callback g h) v = call_of g v"
  by (rule ext) (simp add: call_of_def)

lemma active_slots_from_unregister:
  assumes "matching_slots g h \<noteq> []"
  shows "active_slots_from (unregister_managed_callback g h) i =
         filter (\<lambda>j. j \<noteq> hd (matching_slots g h)) (active_slots_from g i)"
  unfolding active_slots_from_def filter_filter
  by (rule filter_cong) (auto simp: unregister_found [OF assms])

lemma trigger_calls:
  "calls_made (trigger_managed_callbacks g v) =
   map (call_of g v)
     (takeWhile (\<lambda>j. callback (managed_callbacks g j) \<noteq> NULL) (active_slots_from g 0))"
  unfolding trigger_managed_callbacks_def by (simp add: trigger_loop_calls)

lemma trigger_after_unregister:
  assumes "matching_slots g h \<noteq> []"
  shows "calls_made (trigger_managed_callbacks (unregister_managed_callback g h) v) =
        map (call_of g v)
          (takeWhile (\<lambda>j. callback (managed_callbacks g j) \<noteq> NULL)
             (filter (\<lambda>j. j \<noteq> hd (matching_slots g h)) (active_slots_from g 0)))"
  apply (subst trigger_calls)
  apply (subst active_slots_from_unregister [OF assms])
  apply simp
  done

lemma trigger_returns:
  assumes "\<forall>i. i < MAX_CALLBACKS \<and> active (managed_callbacks g i) \<noteq> 0 \<longrightarrow>
             callback (managed_callbacks g i) \<noteq> NULL"
  shows "trigger_managed_callbacks g v = Inr (map (call_of g v) (active_slots_from g 0))"
  unfolding trigger_managed_callbacks_def
  using assms by (subst trigger_loop_returns) auto

lemma active_slots_from_set:
  "set (active_slots_from g 0) = {i. i < MAX_CALLBACKS \<and> active (managed_callbacks g i) \<noteq> 0}"
  by (auto simp: active_slots_from_def)

lemma active_slots_from_sorted:
  "sorted_wrt (<) (active_slots_from g i)"
  unfolding active_slots_from_def by (rule sorted_wrt_filter) simp

lemma reuse_scenario:
  assumes "f1 \<noteq> NULL" "f2 \<noteq> NULL" "f3 \<noteq> NULL" "f4 \<noteq> NULL"
  shows "issued initial_globals
           [Register f1 d1, Register f2 d2, Register f3 d3, Unregister 1, Register f4 d4] =
           [1, 2, 3, 4]"
    and "trigger_managed_callbacks
           (exec initial_globals
              [Register f1 d1, Register f2 d2, Register f3 d3, Unregister 1, Register f4 d4]) v =
           Inr [Call f4 d4 v, Call f2 d2 v, Call f3 d3 v]"
    and "trigger_managed_callbacks
           (exec initial_globals
              [Register f1 d1, Register f2 d2, Register f3 d3, Unregister 2, Register f4 d4]) v =
           Inr [Call f1 d1 v, Call f4 d4 v, Call f3 d3 v]"
  using assms by (simp_all add: run_simps)

subsection \<open>Facts about \<open>strstr\<close>, \<open>c_divide\<close> and \<open>db_execute\<close>\<close>

lemma strstr_iff:
  "strstr hay needle \<noteq> None \<longleftrightarrow> (\<exists>ps ss. hay = ps @ needle @ ss)"
proof (induction hay)
  case Nil
  then show ?case by simp
next
  case (Cons c cs)
  show ?case
  proof (cases "take (length needle) (c # cs) = needle")
    case True
    then have "c # cs = [] @ needle @ drop (length needle) (c # cs)"
      by (metis append_Nil append_take_drop_id)
    then have "\<exists>ps ss. c # cs = ps @ needle @ ss"
      by blast
    moreover from True have "strstr (c # cs) needle = Some 0"
      by simp
    ultimately show ?thesis
      by simp
  next
    case False
    have "(\<exists>ps ss. c # cs = ps @ needle @ ss) \<longleftrightarrow> (\<exists>ps ss. cs = ps @ needle @ ss)"
    proof
      assume "\<exists>ps ss. c # cs = ps @ needle @ ss"
      then obtain ps ss where eq: "c # cs = ps @ needle @ ss" by blast
      show "\<exists>ps ss. cs = ps @ needle @ ss"
      proof (cases ps)
        case Nil
        with eq have "take (length needle) (c # cs) = needle" by simp
        with False show ?thesis by simp
      next
        case (Cons p ps')
        with eq have "cs = ps' @ needle @ ss" by simp
        then show ?thesis by blast
      qed
    next
      assume "\<exists>ps ss. cs = ps @ needle @ ss"
      then obtain ps ss where "cs = ps @ needle @ ss" by blast
      then have "c # cs = (c # ps) @ needle @ ss" by simp
      then show "\<exists>ps ss. c # cs = ps @ needle @ ss" by blast
    qed
    with False Cons.IH show ?thesis by simp
  qed
qed

lemma sdiv_in_range:
  fixes A B :: int
  assumes A: "- 2147483648 \<le> A" "A < 2147483648"
    and B: "- 2147483648 \<le> B" "B < 2147483648" "B \<noteq> 0"
    and no: "\<not> (A = - 2147483648 \<and> B = - 1)"
  shows "- 2147483648 \<le> A sdiv B \<and> A sdiv B < 2147483648"
proof -
  let ?q = "\<bar>A\<bar> div \<bar>B\<bar>"
  have q0: "0 \<le> ?q"
    using B(3) by (simp add: pos_imp_zdiv_nonneg_iff)
  have qle: "?q \<le> \<bar>A\<bar>"
  proof (cases "A = 0")
    case True
    then show ?thesis by simp
  next
    case False
    then show ?thesis by (intro int_div_le_self) simp
  qed
  from A have absA: "\<bar>A\<bar> \<le> 2147483648" by simp
  consider "sgn A * sgn B = 1" | "sgn A * sgn B = - 1" | "sgn A * sgn B = 0"
    by (cases A "0 :: int" rule: linorder_cases; cases B "0 :: int" rule: linorder_cases) simp_all
  then show ?thesis
  proof cases
    case 1
    then have eq: "A sdiv B = ?q"
      by (simp add: signed_divide_int_def)
    have "?q < 2147483648"
    proof (cases "A = - 2147483648")
      case False
      with A have "\<bar>A\<bar> < 2147483648" by simp
      with qle show ?thesis by simp
    next
      case True
      with no have "B \<noteq> - 1" by simp
      moreover from 1 True have "B < 0"
        by (cases B "0 :: int" rule: linorder_cases) simp_all
      ultimately have "2 \<le> \<bar>B\<bar>" by simp
      then have "\<bar>A\<bar> div \<bar>B\<bar> \<le> \<bar>A\<bar> div 2"
        by (intro zdiv_mono2) simp_all
      with True show ?thesis by simp
    qed
    with eq q0 show ?thesis by simp
  next
    case 2
    then have "A sdiv B = - ?q"
      by (simp add: signed_divide_int_def)
    with q0 qle absA show ?thesis by simp
  next
    case 3
    then have "A sdiv B = 0"
      by (simp add: signed_divide_int_def)
    then show ?thesis by simp
  qed
qed

lemma sint_INT32_MIN: "sint INT32_MIN = - 2147483648"
  by (simp add: INT32_MIN_def)

lemma sint_eq_iff: "sint (a :: int32_t) = sint b \<longleftrightarrow> a = b"
  by (auto intro: signed_word_eqI)

lemma c_divide_quotient:
  fixes a b :: int32_t
  assumes "b \<noteq> 0" and "\<not> (a = INT32_MIN \<and> b = - 1)"
  shows "sint (word_of_int (sint a sdiv sint b) :: int32_t) = sint a sdiv sint b"
proof -
  have ra: "- 2147483648 \<le> sint a" "sint a < 2147483648"
    using sint_ge [of a] sint_lt [of a] by simp_all
  have rb: "- 2147483648 \<le> sint b" "sint b < 2147483648"
    using sint_ge [of b] sint_lt [of b] by simp_all
  from assms(1) have nz: "sint b \<noteq> 0"
    by (metis sint_0 sint_eq_iff)
  have no: "\<not> (sint a = - 2147483648 \<and> sint b = - 1)"
  proof
    assume h: "sint a = - 2147483648 \<and> sint b = - 1"
    then have "sint a = sint INT32_MIN" "sint b = sint (- 1 :: int32_t)"
      by (simp_all add: sint_INT32_MIN)
    then have "a = INT32_MIN \<and> b = - 1"
      by (simp only: sint_eq_iff)
    with assms(2) show False by simp
  qed
  from sdiv_in_range [OF ra rb nz no]
  have "signed_take_bit 31 (sint a sdiv sint b) = sint a sdiv sint b"
    by (intro signed_take_bit_int_eq_self) simp_all
  then show ?thesis
    by (simp add: sint_sbintrunc')
qed

lemma db_execute_connected:
  "\<exists>c'. fst (db_execute (Some c) sql) = Some c' \<and> connected c' = connected c"
  by (cases sql) (simp_all add: db_execute_def Let_def)

lemma db_execute_not_invalid:
  "connected c \<noteq> 0 \<Longrightarrow> fst (snd (db_execute (Some c) sql)) \<noteq> ERROR_INVALID_INPUT"
  by (cases sql)
     (simp_all add: db_execute_def Let_def SUCCESS_def ERROR_NULL_POINTER_def
        ERROR_INVALID_INPUT_def ERROR_COMPUTATION_FAILED_def)

lemma db_execute_all_connected:
  "connected c \<noteq> 0 \<Longrightarrow>
   \<exists>c'. fst (db_execute_all (Some c) sqls) = Some c' \<and> connected c' = connected c \<and>
        ERROR_INVALID_INPUT \<notin> set (snd (db_execute_all (Some c) sqls))"
proof (induction sqls arbitrary: c)
  case Nil
  then show ?case by simp
next
  case (Cons sql sqls)
  obtain conn1 code out where ex: "db_execute (Some c) sql = (conn1, code, out)"
    by (cases "db_execute (Some c) sql") auto
  with db_execute_connected [of c sql] obtain c1 where c1: "conn1 = Some c1"
    and conn: "connected c1 = connected c" by auto
  from ex db_execute_not_invalid [OF Cons.prems, of sql]
  have code: "code \<noteq> ERROR_INVALID_INPUT" by simp
  from Cons.prems conn have "connected c1 \<noteq> 0" by simp
  from Cons.IH [OF this] obtain c' where
    "fst (db_execute_all (Some c1) sqls) = Some c'" "connected c' = connected c1"
    "ERROR_INVALID_INPUT \<notin> set (snd (db_execute_all (Some c1) sqls))" by blast
  with ex c1 conn code show ?case
    by (simp add: case_prod_beta)
qed

section \<open>The claims\<close>

subsection \<open>C1: the handles issued\<close>

text \<open>
  C1. Take any sequence of \<open>register_managed_callback\<close> and
  \<open>unregister_managed_callback\<close> calls from the initial state, with fewer than
  \<open>2^31 - 1\<close> registrations (so that \<open>next_handle\<close> does not overflow). The handles the
  successful registrations return are strictly increasing in call order as signed
  integers, hence pairwise distinct: no value is issued twice, whatever is revoked in
  between. And up to \<open>MAX_CALLBACKS = 16\<close> registrations in a row from the initial state
  all succeed and return \<open>1, 2, \<dots>, n\<close>.
\<close>

theorem issued_handles_increasing:
  "(registrations ops < 2147483647 \<longrightarrow>
      sorted_wrt (\<lambda>a b. sint a < sint b) (issued initial_globals ops) \<and>
      distinct (issued initial_globals ops)) \<and>
   (length args \<le> MAX_CALLBACKS \<longrightarrow>
      issued initial_globals (map (\<lambda>(cb, ud). Register cb ud) args) =
        map of_nat [1..<Suc (length args)])"
  using issued_initial_sorted [of ops] sorted_wrt_sint_distinct [of "issued initial_globals ops"]
    issued_fill [OF filled_to_initial, of args]
  by simp

text \<open>
  C1 at concrete inputs: four registrations interleaved with two revocations (one of a
  handle that was never issued) return 1, 2, 3, 4; three registrations in a row return
  1, 2, 3.
\<close>

theorem issued_handles_increasing_witness:
  "registrations mixed_calls < 2147483647 \<and>
   issued initial_globals mixed_calls = [1, 2, 3, 4] \<and>
   sorted_wrt (\<lambda>a b. sint a < sint b) (issued initial_globals mixed_calls) \<and>
   distinct (issued initial_globals mixed_calls) \<and>
   length three_pairs \<le> MAX_CALLBACKS \<and>
   issued initial_globals (map (\<lambda>(cb, ud). Register cb ud) three_pairs) = [1, 2, 3]"
proof -
  have r: "registrations mixed_calls < 2147483647"
    by (simp add: mixed_calls_def)
  have i: "issued initial_globals mixed_calls = [1, 2, 3, 4]"
    unfolding mixed_calls_def by (simp add: run_simps)
  have l: "length three_pairs \<le> MAX_CALLBACKS"
    by (simp add: three_pairs_def MAX_CALLBACKS_def)
  have u: "map of_nat [1..<Suc (length three_pairs)] = [1, 2, 3 :: int32_t]"
    by (simp add: three_pairs_def upt_rec)
  from issued_handles_increasing [of mixed_calls three_pairs] r i l u
  show ?thesis by simp
qed

subsection \<open>C2: the order in which the trigger calls\<close>

text \<open>
  C2. The claim states what the trigger is written to do, and the code departs from it
  through a defect of \<open>register_managed_callback\<close>: unlike \<open>register_simple_callback\<close>
  and \<open>register_callback_with_data\<close>, which test \<open>callback != NULL\<close>, it stores a null
  callback in an active slot, and the trigger calls through it. The input: register a
  null callback, register the callback at address 102 with the context at address 202,
  trigger with value 5. Slots 0 and 1 are then active, slot 0 holds the null pointer,
  slot 1 holds callback 102, and \<open>trigger_managed_callbacks\<close> stops at the null pointer
  of slot 0 with no call made: the callback of the active slot 1 is not invoked.
\<close>

theorem trigger_managed_callbacks_null_callback_fault:
  "issued initial_globals null_then_callback = [1, 2] \<and>
   active (managed_callbacks (exec initial_globals null_then_callback) 0) \<noteq> 0 \<and>
   callback (managed_callbacks (exec initial_globals null_then_callback) 0) = NULL \<and>
   active (managed_callbacks (exec initial_globals null_then_callback) 1) \<noteq> 0 \<and>
   callback (managed_callbacks (exec initial_globals null_then_callback) 1) = Addr 102 \<and>
   user_data (managed_callbacks (exec initial_globals null_then_callback) 1) = Addr 202 \<and>
   trigger_managed_callbacks (exec initial_globals null_then_callback) 5 = Inl (NullCall [])"
  unfolding null_then_callback_def by (simp add: run_simps)

text \<open>
  The defect is the only departure. In every state in which no active slot holds a
  null callback, \<open>trigger_managed_callbacks\<close> returns after making exactly one call per
  active slot, with the slot's own callback and context and the given value, in
  ascending order of the slot index (\<open>active_slots_from g 0\<close> lists the active indices
  in increasing order). This is not the order of registration: after registering
  \<open>f1, f2, f3\<close>, revoking the first or the second and registering \<open>f4\<close>, \<open>f4\<close> sits in
  the freed slot and is called before the older entries in the slots above it.
\<close>

lemma trigger_managed_callbacks_slot_order:
  "((\<forall>i. i < MAX_CALLBACKS \<and> active (managed_callbacks g i) \<noteq> 0 \<longrightarrow>
          callback (managed_callbacks g i) \<noteq> NULL) \<longrightarrow>
      trigger_managed_callbacks g v = Inr (map (call_of g v) (active_slots_from g 0)) \<and>
      set (active_slots_from g 0) =
        {i. i < MAX_CALLBACKS \<and> active (managed_callbacks g i) \<noteq> 0} \<and>
      sorted_wrt (<) (active_slots_from g 0)) \<and>
   (f1 \<noteq> NULL \<and> f2 \<noteq> NULL \<and> f3 \<noteq> NULL \<and> f4 \<noteq> NULL \<longrightarrow>
      issued initial_globals
        [Register f1 d1, Register f2 d2, Register f3 d3, Unregister 1, Register f4 d4] =
        [1, 2, 3, 4] \<and>
      trigger_managed_callbacks
        (exec initial_globals
           [Register f1 d1, Register f2 d2, Register f3 d3, Unregister 1, Register f4 d4]) w =
        Inr [Call f4 d4 w, Call f2 d2 w, Call f3 d3 w] \<and>
      trigger_managed_callbacks
        (exec initial_globals
           [Register f1 d1, Register f2 d2, Register f3 d3, Unregister 2, Register f4 d4]) w =
        Inr [Call f1 d1 w, Call f4 d4 w, Call f3 d3 w])"
proof (intro conjI impI)
  assume "\<forall>i. i < MAX_CALLBACKS \<and> active (managed_callbacks g i) \<noteq> 0 \<longrightarrow>
          callback (managed_callbacks g i) \<noteq> NULL"
  then show "trigger_managed_callbacks g v = Inr (map (call_of g v) (active_slots_from g 0))"
    by (rule trigger_returns)
next
  show "set (active_slots_from g 0) =
        {i. i < MAX_CALLBACKS \<and> active (managed_callbacks g i) \<noteq> 0}"
    by (rule active_slots_from_set)
next
  show "sorted_wrt (<) (active_slots_from g 0)"
    by (rule active_slots_from_sorted)
next
  assume "f1 \<noteq> NULL \<and> f2 \<noteq> NULL \<and> f3 \<noteq> NULL \<and> f4 \<noteq> NULL"
  then show "issued initial_globals
        [Register f1 d1, Register f2 d2, Register f3 d3, Unregister 1, Register f4 d4] =
        [1, 2, 3, 4]"
    by (intro reuse_scenario(1)) simp_all
next
  assume "f1 \<noteq> NULL \<and> f2 \<noteq> NULL \<and> f3 \<noteq> NULL \<and> f4 \<noteq> NULL"
  then show "trigger_managed_callbacks
        (exec initial_globals
           [Register f1 d1, Register f2 d2, Register f3 d3, Unregister 1, Register f4 d4]) w =
        Inr [Call f4 d4 w, Call f2 d2 w, Call f3 d3 w]"
    by (intro reuse_scenario(2)) simp_all
next
  assume "f1 \<noteq> NULL \<and> f2 \<noteq> NULL \<and> f3 \<noteq> NULL \<and> f4 \<noteq> NULL"
  then show "trigger_managed_callbacks
        (exec initial_globals
           [Register f1 d1, Register f2 d2, Register f3 d3, Unregister 2, Register f4 d4]) w =
        Inr [Call f1 d1 w, Call f4 d4 w, Call f3 d3 w]"
    by (intro reuse_scenario(3)) simp_all
qed

subsection \<open>C3: registration into a full table\<close>

text \<open>
  C3. When every slot of the table is active, \<open>register_managed_callback\<close> returns the
  failure value \<open>-1\<close> and the state after the call is the state before it: every field
  of every slot and the handle counter are unchanged, so every handle issued before is
  still the handle of its slot.
\<close>

theorem register_managed_callback_table_full:
  "\<forall>i. i < MAX_CALLBACKS \<longrightarrow> active (managed_callbacks g i) \<noteq> 0 \<Longrightarrow>
   register_managed_callback g cb ud = (g, - 1)"
  by (rule register_full) (simp add: inactive_slots_Nil_iff)

text \<open>
  C3, at a concrete input: after sixteen registrations from the initial state no slot is
  inactive, and the seventeenth registration returns \<open>-1\<close> and leaves the state as it
  is.
\<close>

theorem register_managed_callback_table_full_witness:
  "inactive_slots (exec initial_globals sixteen_registrations) = [] \<and>
   register_managed_callback (exec initial_globals sixteen_registrations) (Addr 300) NULL =
     (exec initial_globals sixteen_registrations, - 1)"
  using register_managed_callback_table_full
          [of "exec initial_globals sixteen_registrations" "Addr 300" NULL]
        inactive_slots_sixteen
  by (simp add: inactive_slots_Nil_iff)

subsection \<open>C4: which slot a registration takes\<close>

text \<open>
  C4 as stated fails. The claim says that for some reachable state with at least two
  inactive slots a registration writes a slot that is not the lowest inactive one. The
  scan starts at index 0 and stops at the first inactive slot, so there is no such
  state: in no state reached from the initial one does a registration change a slot
  \<open>i\<close> while a slot \<open>j < i\<close> is inactive.
\<close>

theorem register_managed_callback_not_lowest_counterexample:
  "\<not> (\<exists>ops cb ud i j.
        2 \<le> length (inactive_slots (exec initial_globals ops)) \<and>
        i < MAX_CALLBACKS \<and>
        managed_callbacks (fst (register_managed_callback (exec initial_globals ops) cb ud)) i
          \<noteq> managed_callbacks (exec initial_globals ops) i \<and>
        j < i \<and> active (managed_callbacks (exec initial_globals ops) j) = 0)"
proof
  assume "\<exists>ops cb ud i j.
        2 \<le> length (inactive_slots (exec initial_globals ops)) \<and>
        i < MAX_CALLBACKS \<and>
        managed_callbacks (fst (register_managed_callback (exec initial_globals ops) cb ud)) i
          \<noteq> managed_callbacks (exec initial_globals ops) i \<and>
        j < i \<and> active (managed_callbacks (exec initial_globals ops) j) = 0"
  then obtain ops cb ud i j where
    two: "2 \<le> length (inactive_slots (exec initial_globals ops))" and
    changed: "managed_callbacks (fst (register_managed_callback (exec initial_globals ops) cb ud)) i
          \<noteq> managed_callbacks (exec initial_globals ops) i" and
    below: "j < i" "active (managed_callbacks (exec initial_globals ops) j) = 0"
    by blast
  let ?g = "exec initial_globals ops"
  from two have ne: "inactive_slots ?g \<noteq> []" by auto
  from changed have "i = hd (inactive_slots ?g)"
    by (simp add: register_free [OF ne] split: if_splits)
  with inactive_slots_hd(3) [OF ne] below show False by auto
qed

text \<open>
  C4, amended. In every state with an inactive slot, \<open>register_managed_callback\<close>
  writes the lowest-index inactive slot \<open>hd (inactive_slots g)\<close>: that slot is inactive,
  every slot below it is active, and the call stores the counter's value, the callback
  and the context there, marks it active, increments the counter and returns the handle.
\<close>

theorem register_managed_callback_lowest_inactive:
  assumes "inactive_slots g \<noteq> []"
  shows "hd (inactive_slots g) < MAX_CALLBACKS \<and>
         active (managed_callbacks g (hd (inactive_slots g))) = 0 \<and>
         (\<forall>j. j < hd (inactive_slots g) \<longrightarrow> active (managed_callbacks g j) \<noteq> 0) \<and>
         register_managed_callback g cb ud =
           (g\<lparr>managed_callbacks := (managed_callbacks g)
                (hd (inactive_slots g) :=
                   \<lparr>handle = next_handle g, callback = cb, user_data = ud, active = 1\<rparr>),
              next_handle := next_handle g + 1\<rparr>,
            next_handle g)"
  using inactive_slots_hd [OF assms] register_free [OF assms, of cb ud]
  by (simp add: slot_overwrite)

text \<open>
  C4, amended, at a concrete input: after three registrations and the revocation of
  handle 2, slots 1 and 3 to 15 are inactive, and the next registration takes slot 1.
\<close>

theorem register_managed_callback_lowest_inactive_witness:
  "inactive_slots (exec initial_globals three_registered_one_revoked) =
     [1, 3, 4, 5, 6, 7, 8, 9, 10, 11, 12, 13, 14, 15] \<and>
   register_managed_callback (exec initial_globals three_registered_one_revoked)
       (Addr 104) (Addr 204) =
     ((exec initial_globals three_registered_one_revoked)
        \<lparr>managed_callbacks :=
           (managed_callbacks (exec initial_globals three_registered_one_revoked))
             (1 := \<lparr>handle = 4, callback = Addr 104, user_data = Addr 204, active = 1\<rparr>),
         next_handle := 5\<rparr>, 4)"
proof -
  have nh: "next_handle (exec initial_globals three_registered_one_revoked) = 4"
    unfolding three_registered_one_revoked_def by (simp add: run_simps)
  show ?thesis
    using register_managed_callback_lowest_inactive
            [of "exec initial_globals three_registered_one_revoked" "Addr 104" "Addr 204"]
    by (simp add: inactive_slots_three_one nh)
qed

subsection \<open>C5: what a revocation writes\<close>

text \<open>
  C5 as stated fails. After one registration (callback at address 101, context at
  address 201, handle 1, slot 0), \<open>unregister_managed_callback\<close> with handle 1 marks
  slot 0 inactive, and the slot still holds the callback and the context pointer: they
  are not cleared.
\<close>

theorem unregister_managed_callback_clears_counterexample:
  "active (managed_callbacks one_registered 0) \<noteq> 0 \<and>
   handle (managed_callbacks one_registered 0) = 1 \<and>
   active (managed_callbacks (unregister_managed_callback one_registered 1) 0) = 0 \<and>
   callback (managed_callbacks (unregister_managed_callback one_registered 1) 0) = Addr 101 \<and>
   user_data (managed_callbacks (unregister_managed_callback one_registered 1) 0) = Addr 201 \<and>
   Addr 101 \<noteq> NULL \<and> Addr 201 \<noteq> NULL"
  unfolding one_registered_def by (simp add: run_simps)

text \<open>
  C5, amended. When an active slot carries the handle, \<open>unregister_managed_callback\<close>
  writes \<open>active = 0\<close> into the lowest-index active slot that carries it and nothing
  else: the handle, callback and context fields of that slot, every other slot and the
  counter are as before.
\<close>

theorem unregister_managed_callback_marks_inactive:
  assumes "i < MAX_CALLBACKS" "active (managed_callbacks g i) \<noteq> 0"
    "handle (managed_callbacks g i) = h"
  shows "matching_slots g h \<noteq> [] \<and> hd (matching_slots g h) \<le> i \<and>
         active (managed_callbacks g (hd (matching_slots g h))) \<noteq> 0 \<and>
         handle (managed_callbacks g (hd (matching_slots g h))) = h \<and>
         unregister_managed_callback g h =
           g\<lparr>managed_callbacks := (managed_callbacks g)
                (hd (matching_slots g h) :=
                   (managed_callbacks g (hd (matching_slots g h)))\<lparr>active := 0\<rparr>)\<rparr>"
proof -
  from assms have ne: "matching_slots g h \<noteq> []"
    by (auto simp: matching_slots_def filter_empty_conv)
  from matching_slots_hd(4) [OF ne] assms have "\<not> i < hd (matching_slots g h)"
    by blast
  then have "hd (matching_slots g h) \<le> i"
    by simp
  with ne matching_slots_hd [OF ne] unregister_found [OF ne] show ?thesis by simp
qed

text \<open>
  C5, amended, at a concrete input: revoking handle 1 after one registration changes
  only the \<open>active\<close> field of slot 0.
\<close>

theorem unregister_managed_callback_marks_inactive_witness:
  "unregister_managed_callback one_registered 1 =
     one_registered\<lparr>managed_callbacks := (managed_callbacks one_registered)
        (0 := \<lparr>handle = 1, callback = Addr 101, user_data = Addr 201, active = 0\<rparr>)\<rparr>"
proof -
  have slot: "managed_callbacks one_registered 0 =
      \<lparr>handle = 1, callback = Addr 101, user_data = Addr 201, active = 1\<rparr>"
    unfolding one_registered_def by (simp add: run_simps)
  have m: "matching_slots one_registered 1 = [0]"
    unfolding matching_slots_def slots_upt one_registered_def by (simp add: run_simps)
  from unregister_managed_callback_marks_inactive [of 0 one_registered 1] slot m
  show ?thesis by (simp add: MAX_CALLBACKS_def)
qed

subsection \<open>C6: revoking an unknown or already revoked handle\<close>

text \<open>
  C6. (1) In every state and for every handle value, when no active slot carries the
  handle, \<open>unregister_managed_callback\<close> returns the state unchanged (the function
  returns nothing else: there is no error to signal). (2) A second call with the same
  handle is such a call: in every state reached from the initial one without overflow
  of the counter, active handles are pairwise distinct, and revoking \<open>h\<close> twice
  gives the state after revoking it once. (3) After a revocation that found its slot,
  the trigger's calls are made for the slots that were active before other than the
  revoked one (up to the first null function pointer among them): no call is made for
  the revoked registration.
\<close>

theorem unregister_managed_callback_idempotent:
  "((\<forall>i. i < MAX_CALLBACKS \<longrightarrow>
       \<not> (active (managed_callbacks g i) \<noteq> 0 \<and> handle (managed_callbacks g i) = h)) \<longrightarrow>
      unregister_managed_callback g h = g) \<and>
   (registrations ops < 2147483647 \<longrightarrow>
      unregister_managed_callback
        (unregister_managed_callback (exec initial_globals ops) h) h =
      unregister_managed_callback (exec initial_globals ops) h) \<and>
   (matching_slots g h \<noteq> [] \<longrightarrow>
      calls_made (trigger_managed_callbacks (unregister_managed_callback g h) v) =
        map (call_of g v)
          (takeWhile (\<lambda>j. callback (managed_callbacks g j) \<noteq> NULL)
             (filter (\<lambda>j. j \<noteq> hd (matching_slots g h)) (active_slots_from g 0))))"
proof -
  have none: "unregister_managed_callback g h = g"
    if "\<forall>i. i < MAX_CALLBACKS \<longrightarrow>
       \<not> (active (managed_callbacks g i) \<noteq> 0 \<and> handle (managed_callbacks g i) = h)"
  proof -
    from that have "matching_slots g h = []"
      by (simp add: matching_slots_Nil_iff)
    then show ?thesis
      by (rule unregister_none)
  qed
  have twice: "unregister_managed_callback
        (unregister_managed_callback (exec initial_globals ops) h) h =
      unregister_managed_callback (exec initial_globals ops) h"
    if "registrations ops < 2147483647"
    using reachable_invariants(2) [OF that] by (rule unregister_twice)
  from none twice trigger_after_unregister [of g h v] show ?thesis
    by (intro conjI impI)
qed

text \<open>
  C6 at a concrete input: with two callbacks registered, revoking the unknown handle 7
  changes nothing, revoking handle 1 twice is revoking it once, and the trigger after
  the revocation calls only the second callback.
\<close>

theorem unregister_managed_callback_idempotent_witness:
  "unregister_managed_callback two_registered 7 = two_registered \<and>
   unregister_managed_callback (unregister_managed_callback two_registered 1) 1 =
     unregister_managed_callback two_registered 1 \<and>
   matching_slots two_registered 1 = [0] \<and>
   trigger_managed_callbacks two_registered 5 =
     Inr [Call (Addr 101) (Addr 201) 5, Call (Addr 102) (Addr 202) 5] \<and>
   calls_made (trigger_managed_callbacks (unregister_managed_callback two_registered 1) 5) =
     [Call (Addr 102) (Addr 202) 5]"
proof -
  let ?ops = "[Register (Addr 101) (Addr 201), Register (Addr 102) (Addr 202)]"
  have m: "matching_slots two_registered 1 = [0]" "matching_slots two_registered 7 = []"
    unfolding matching_slots_def slots_upt two_registered_def by (simp_all add: run_simps)
  have a: "active_slots_from two_registered 0 = [0, 1]"
    unfolding active_slots_from_def slots_upt two_registered_def by (simp add: run_simps)
  have c: "call_of two_registered 5 1 = Call (Addr 102) (Addr 202) 5"
    "callback (managed_callbacks two_registered 1) = Addr 102"
    unfolding call_of_def two_registered_def by (simp_all add: run_simps)
  have t: "trigger_managed_callbacks two_registered 5 =
     Inr [Call (Addr 101) (Addr 201) 5, Call (Addr 102) (Addr 202) 5]"
    unfolding two_registered_def by (simp add: run_simps)
  from unregister_managed_callback_idempotent [of two_registered 7 ?ops 5]
  have "unregister_managed_callback two_registered 7 = two_registered"
    using m(2) by (simp add: matching_slots_Nil_iff)
  moreover from unregister_managed_callback_idempotent [of two_registered 1 ?ops 5]
  have "unregister_managed_callback (unregister_managed_callback two_registered 1) 1 =
     unregister_managed_callback two_registered 1"
    and "calls_made (trigger_managed_callbacks (unregister_managed_callback two_registered 1) 5) =
     [Call (Addr 102) (Addr 202) 5]"
    using m(1) a c by (simp_all add: two_registered_def)
  ultimately show ?thesis
    using m(1) t by simp
qed

subsection \<open>C7: the cases of \<open>db_execute\<close>\<close>

text \<open>
  C7. \<open>db_execute\<close> by cases. A null connection or a null command: the code is
  \<open>ERROR_NULL_POINTER\<close> (-1), the object is as before and nothing is printed. A
  connection whose \<open>connected\<close> flag is 0: \<open>last_error\<close> becomes \<open>Not connected\<close>, the
  code is \<open>ERROR_INVALID_INPUT\<close> (-2), and nothing else changes. Otherwise
  \<open>query_count\<close> is incremented (and the line is printed); then, if the command
  contains \<open>ERROR\<close> as a substring, \<open>last_error\<close> becomes the non-empty
  \<open>Simulated query error\<close> and the code is \<open>ERROR_COMPUTATION_FAILED\<close> (-3); if it does
  not, \<open>last_error\<close> becomes empty and the code is \<open>SUCCESS\<close> (0).
\<close>

theorem db_execute_cases:
  "(conn = None \<or> sql = None \<longrightarrow> db_execute conn sql = (conn, ERROR_NULL_POINTER, [])) \<and>
   (connected c = 0 \<longrightarrow>
      db_execute (Some c) (Some s) =
        (Some (c\<lparr>last_error := ''Not connected''\<rparr>), ERROR_INVALID_INPUT, [])) \<and>
   (connected c \<noteq> 0 \<and> (\<exists>ps ss. s = ps @ ''ERROR'' @ ss) \<longrightarrow>
      db_execute (Some c) (Some s) =
        (Some (c\<lparr>query_count := query_count c + 1, last_error := ''Simulated query error''\<rparr>),
         ERROR_COMPUTATION_FAILED, [Executed (query_count c + 1) s])) \<and>
   (connected c \<noteq> 0 \<and> \<not> (\<exists>ps ss. s = ps @ ''ERROR'' @ ss) \<longrightarrow>
      db_execute (Some c) (Some s) =
        (Some (c\<lparr>query_count := query_count c + 1, last_error := []\<rparr>),
         SUCCESS, [Executed (query_count c + 1) s])) \<and>
   sint SUCCESS = 0 \<and> sint ERROR_NULL_POINTER = - 1 \<and> sint ERROR_INVALID_INPUT = - 2 \<and>
   sint ERROR_COMPUTATION_FAILED = - 3 \<and> ''Simulated query error'' \<noteq> []"
proof (intro conjI impI)
  assume "conn = None \<or> sql = None"
  then show "db_execute conn sql = (conn, ERROR_NULL_POINTER, [])"
    by (auto simp: db_execute_def split: option.splits)
next
  assume "connected c = 0"
  then show "db_execute (Some c) (Some s) =
        (Some (c\<lparr>last_error := ''Not connected''\<rparr>), ERROR_INVALID_INPUT, [])"
    by (simp add: db_execute_def)
next
  assume "connected c \<noteq> 0 \<and> (\<exists>ps ss. s = ps @ ''ERROR'' @ ss)"
  then have "connected c \<noteq> 0" "strstr s ''ERROR'' \<noteq> None"
    using strstr_iff [of s "''ERROR''"] by simp_all
  then show "db_execute (Some c) (Some s) =
        (Some (c\<lparr>query_count := query_count c + 1, last_error := ''Simulated query error''\<rparr>),
         ERROR_COMPUTATION_FAILED, [Executed (query_count c + 1) s])"
    by (simp add: db_execute_def Let_def)
next
  assume "connected c \<noteq> 0 \<and> \<not> (\<exists>ps ss. s = ps @ ''ERROR'' @ ss)"
  then have "connected c \<noteq> 0" "strstr s ''ERROR'' = None"
    using strstr_iff [of s "''ERROR''"] by simp_all
  then show "db_execute (Some c) (Some s) =
        (Some (c\<lparr>query_count := query_count c + 1, last_error := []\<rparr>),
         SUCCESS, [Executed (query_count c + 1) s])"
    by (simp add: db_execute_def Let_def)
qed (simp_all add: SUCCESS_def ERROR_NULL_POINTER_def ERROR_INVALID_INPUT_def
      ERROR_COMPUTATION_FAILED_def)

text \<open>
  C7 at concrete inputs, one per case: a null connection; the connection opened for
  \<open>x\<close> with its flag cleared by hand; the opened connection with \<open>DO ERROR\<close>, after
  which \<open>db_get_last_error\<close> is non-empty; and with \<open>SELECT 1\<close>, after which it is empty.
\<close>

theorem db_execute_cases_witness:
  "db_execute None (Some ''SELECT 1'') = (None, ERROR_NULL_POINTER, []) \<and>
   db_execute (Some (opened_x\<lparr>connected := 0\<rparr>)) (Some ''SELECT 1'') =
     (Some (opened_x\<lparr>connected := 0, last_error := ''Not connected''\<rparr>),
      ERROR_INVALID_INPUT, []) \<and>
   db_execute (Some opened_x) (Some ''DO ERROR'') =
     (Some (opened_x\<lparr>query_count := 1, last_error := ''Simulated query error''\<rparr>),
      ERROR_COMPUTATION_FAILED, [Executed 1 ''DO ERROR'']) \<and>
   db_get_last_error (fst (db_execute (Some opened_x) (Some ''DO ERROR''))) \<noteq> [] \<and>
   db_execute (Some opened_x) (Some ''SELECT 1'') =
     (Some (opened_x\<lparr>query_count := 1, last_error := []\<rparr>),
      SUCCESS, [Executed 1 ''SELECT 1'']) \<and>
   db_get_last_error (fst (db_execute (Some opened_x) (Some ''SELECT 1''))) = []"
proof -
  have m1: "\<exists>ps ss. ''DO ERROR'' = ps @ ''ERROR'' @ ss"
    using strstr_iff [of "''DO ERROR''" "''ERROR''"] by simp
  have m2: "\<not> (\<exists>ps ss. ''SELECT 1'' = ps @ ''ERROR'' @ ss)"
    using strstr_iff [of "''SELECT 1''" "''ERROR''"] by simp
  have c: "connected opened_x \<noteq> 0" "connected (opened_x\<lparr>connected := 0\<rparr>) = 0"
    "query_count opened_x = 0"
    by (simp_all add: opened_x_def)
  from db_execute_cases [of None "Some ''SELECT 1''" "opened_x\<lparr>connected := 0\<rparr>" "''SELECT 1''"]
    db_execute_cases [of None None opened_x "''DO ERROR''"]
    db_execute_cases [of None None opened_x "''SELECT 1''"]
    m1 m2 c
  show ?thesis
    by (simp add: db_get_last_error_def)
qed

subsection \<open>C8: \<open>c_divide\<close>\<close>

text \<open>
  C8 as stated (for every pair of integers) fails at \<open>a = INT32_MIN\<close>, \<open>b = -1\<close>: the
  divisor is not zero, the quotient \<open>2^31\<close> is not an \<open>int32_t\<close>, and the call does not
  return \<open>SUCCESS\<close> with the quotient in the output cell.
\<close>

theorem c_divide_overflow_counterexample:
  "INT32_MIN \<noteq> 0 \<and> (- 1 :: int32_t) \<noteq> 0 \<and> sint INT32_MIN = - 2147483648 \<and>
   c_divide INT32_MIN (- 1) (Some 0) = Inl DivideOverflow"
  by (simp add: c_divide_def INT32_MIN_def)

text \<open>
  C8, amended. With a non-null output pointer: for \<open>b = 0\<close>, \<open>c_divide\<close> returns
  \<open>ERROR_INVALID_INPUT\<close> (-2) and the output cell holds what it held before; for
  \<open>b \<noteq> 0\<close>, other than \<open>a = INT32_MIN\<close> with \<open>b = -1\<close>, it returns \<open>SUCCESS\<close> (0) and
  the cell holds the quotient of the two signed values, truncated towards zero; in
  particular \<open>c_divide(10, 2)\<close> gives 5.
\<close>

theorem c_divide_cases:
  "c_divide a 0 (Some cur) = Inr (ERROR_INVALID_INPUT, Some cur) \<and>
   sint ERROR_INVALID_INPUT = - 2 \<and>
   (b \<noteq> 0 \<and> \<not> (a = INT32_MIN \<and> b = - 1) \<longrightarrow>
      (\<exists>q. c_divide a b (Some cur) = Inr (SUCCESS, Some q) \<and>
           sint q = sgn (sint a) * sgn (sint b) * (\<bar>sint a\<bar> div \<bar>sint b\<bar>))) \<and>
   sint SUCCESS = 0 \<and>
   c_divide 10 2 (Some cur) = Inr (SUCCESS, Some 5)"
proof (intro conjI impI)
  show "c_divide a 0 (Some cur) = Inr (ERROR_INVALID_INPUT, Some cur)"
    by (simp add: c_divide_def)
  show "sint ERROR_INVALID_INPUT = - 2"
    by (simp add: ERROR_INVALID_INPUT_def)
  show "sint SUCCESS = 0"
    by (simp add: SUCCESS_def)
  show "c_divide 10 2 (Some cur) = Inr (SUCCESS, Some 5)"
    by (simp add: c_divide_def INT32_MIN_def signed_divide_int_def)
next
  assume h: "b \<noteq> 0 \<and> \<not> (a = INT32_MIN \<and> b = - 1)"
  then have "c_divide a b (Some cur) = Inr (SUCCESS, Some (word_of_int (sint a sdiv sint b)))"
    by (auto simp: c_divide_def)
  moreover from h have "sint (word_of_int (sint a sdiv sint b) :: int32_t) = sint a sdiv sint b"
    by (intro c_divide_quotient) simp_all
  then have "sint (word_of_int (sint a sdiv sint b) :: int32_t) =
      sgn (sint a) * sgn (sint b) * (\<bar>sint a\<bar> div \<bar>sint b\<bar>)"
    by (simp only: signed_divide_int_def)
  ultimately show "\<exists>q. c_divide a b (Some cur) = Inr (SUCCESS, Some q) \<and>
           sint q = sgn (sint a) * sgn (sint b) * (\<bar>sint a\<bar> div \<bar>sint b\<bar>)"
    by blast
qed

text \<open>
  C8, amended, at concrete inputs: \<open>10 / 0\<close> leaves the cell's 77 in place;
  \<open>-7 / 2\<close> writes \<open>-3\<close>; \<open>10 / 2\<close> writes 5.
\<close>

theorem c_divide_cases_witness:
  "c_divide 10 0 (Some 77) = Inr (ERROR_INVALID_INPUT, Some 77) \<and>
   c_divide (- 7) 2 (Some 77) = Inr (SUCCESS, Some (- 3)) \<and>
   c_divide 10 2 (Some 77) = Inr (SUCCESS, Some 5)"
proof -
  have "c_divide (- 7) 2 (Some 77) = Inr (SUCCESS, Some (- 3))"
    by (simp add: c_divide_def INT32_MIN_def signed_divide_int_def)
  with c_divide_cases [of 10 77 2] show ?thesis
    by simp
qed

subsection \<open>C9: the \<open>connected\<close> flag\<close>

text \<open>
  C9. A connection that \<open>db_open\<close> returns has \<open>connected = 1\<close>. \<open>db_execute\<close> on a
  connection returns that connection with the flag as it was, whatever the command;
  \<open>db_close\<close> frees the object (the pointer's target is gone) and does not write the
  flag; \<open>db_get_last_error\<close> only reads. Hence after \<open>db_open\<close> and any sequence of
  \<open>db_execute\<close> calls the flag is still 1 and no call returned
  \<open>ERROR_INVALID_INPUT\<close>: the \<open>Not connected\<close> branch is not taken.
\<close>

theorem db_connected_stays_set:
  "(db_open p malloc_ok strdup_ok = (Some c, out) \<longrightarrow> connected c = 1) \<and>
   (\<exists>c'. fst (db_execute (Some c) sql) = Some c' \<and> connected c' = connected c) \<and>
   fst (db_close conn) = None \<and>
   (db_open p malloc_ok strdup_ok = (Some c, out) \<longrightarrow>
      (\<exists>c'. fst (db_execute_all (Some c) sqls) = Some c' \<and> connected c' = 1) \<and>
      ERROR_INVALID_INPUT \<notin> set (snd (db_execute_all (Some c) sqls)))"
proof (intro conjI impI)
  assume "db_open p malloc_ok strdup_ok = (Some c, out)"
  then show "connected c = 1"
    by (auto simp: db_open_def split: option.splits if_splits)
next
  show "\<exists>c'. fst (db_execute (Some c) sql) = Some c' \<and> connected c' = connected c"
    by (rule db_execute_connected)
next
  show "fst (db_close conn) = None"
    by (simp add: db_close_def split: option.splits)
next
  assume "db_open p malloc_ok strdup_ok = (Some c, out)"
  then have one: "connected c = 1"
    by (auto simp: db_open_def split: option.splits if_splits)
  then have "connected c \<noteq> 0" by simp
  from db_execute_all_connected [OF this, of sqls] one
  show "\<exists>c'. fst (db_execute_all (Some c) sqls) = Some c' \<and> connected c' = 1"
    by auto
next
  assume "db_open p malloc_ok strdup_ok = (Some c, out)"
  then have one: "connected c = 1"
    by (auto simp: db_open_def split: option.splits if_splits)
  then have "connected c \<noteq> 0" by simp
  from db_execute_all_connected [OF this, of sqls]
  show "ERROR_INVALID_INPUT \<notin> set (snd (db_execute_all (Some c) sqls))"
    by auto
qed

text \<open>
  C9 at a concrete input: the connection opened for \<open>x\<close>, then \<open>SELECT 1\<close>,
  \<open>DO ERROR\<close> and a null command, then \<open>db_close\<close>.
\<close>

theorem db_connected_stays_set_witness:
  "db_open (Some ''x'') True True = (Some opened_x, [Opened ''x'']) \<and>
   connected opened_x = 1 \<and>
   db_execute_all (Some opened_x) three_commands =
     (Some (opened_x\<lparr>query_count := 2, last_error := ''Simulated query error''\<rparr>),
      [SUCCESS, ERROR_COMPUTATION_FAILED, ERROR_NULL_POINTER]) \<and>
   ERROR_INVALID_INPUT \<notin> set (snd (db_execute_all (Some opened_x) three_commands)) \<and>
   db_close (Some opened_x) = (None, [Closed (Some ''x'') 0])"
proof -
  have o: "db_open (Some ''x'') True True = (Some opened_x, [Opened ''x''])"
    by (simp add: db_open_def opened_x_def)
  have e: "db_execute_all (Some opened_x) three_commands =
     (Some (opened_x\<lparr>query_count := 2, last_error := ''Simulated query error''\<rparr>),
      [SUCCESS, ERROR_COMPUTATION_FAILED, ERROR_NULL_POINTER])"
    by (simp add: three_commands_def db_execute_def opened_x_def Let_def)
  have c: "db_close (Some opened_x) = (None, [Closed (Some ''x'') 0])"
    by (simp add: db_close_def opened_x_def)
  from db_connected_stays_set
         [of "Some ''x''" True True opened_x "[Opened ''x'']" "Some ''SELECT 1''"
             "Some opened_x" three_commands] o e c
  show ?thesis by simp
qed

subsection \<open>C10: a null callback is registered\<close>

text \<open>
  C10. In every state reached from the initial one by registrations and revocations
  (fewer than \<open>2^31 - 1\<close> registrations, so that the counter has not overflowed) that
  has an inactive slot, \<open>register_managed_callback\<close> with a null callback succeeds: it
  returns the counter's value, which is positive, is not the failure value, was not
  returned by any earlier registration and is not stored in any slot, and the lowest
  inactive slot now holds that handle, the null callback and the context, marked
  active. The simple registries check the callback: given a null callback,
  \<open>register_simple_callback\<close> and \<open>register_callback_with_data\<close> leave their state
  unchanged.
\<close>

theorem register_managed_callback_null_callback:
  assumes "registrations ops < 2147483647"
    and "inactive_slots (exec initial_globals ops) \<noteq> []"
  shows "snd (register_managed_callback (exec initial_globals ops) NULL ud) =
           next_handle (exec initial_globals ops) \<and>
         managed_callbacks (fst (register_managed_callback (exec initial_globals ops) NULL ud))
             (hd (inactive_slots (exec initial_globals ops))) =
           \<lparr>handle = next_handle (exec initial_globals ops), callback = NULL,
            user_data = ud, active = 1\<rparr> \<and>
         0 < sint (next_handle (exec initial_globals ops)) \<and>
         next_handle (exec initial_globals ops) \<noteq> - 1 \<and>
         next_handle (exec initial_globals ops) \<notin> set (issued initial_globals ops) \<and>
         (\<forall>i. i < MAX_CALLBACKS \<longrightarrow>
            handle (managed_callbacks (exec initial_globals ops) i) \<noteq>
            next_handle (exec initial_globals ops)) \<and>
         register_simple_callback s NULL = s \<and>
         register_callback_with_data t NULL ud = t"
proof -
  let ?g = "exec initial_globals ops"
  from reachable_invariants(1) [OF assms(1)]
  have pos: "0 < sint (next_handle ?g)"
    and below: "\<forall>i. i < MAX_CALLBACKS \<longrightarrow>
                  sint (handle (managed_callbacks ?g i)) < sint (next_handle ?g)"
    by (simp_all add: handles_below_def)
  from pos have ne: "next_handle ?g \<noteq> - 1" by auto
  from reachable_invariants(3) [OF assms(1)]
  have fresh: "next_handle ?g \<notin> set (issued initial_globals ops)" by auto
  from below have fresh': "\<forall>i. i < MAX_CALLBACKS \<longrightarrow>
      handle (managed_callbacks ?g i) \<noteq> next_handle ?g" by auto
  from register_free [OF assms(2), of NULL ud] pos ne fresh fresh' show ?thesis
    by (simp add: slot_overwrite register_simple_callback_def register_callback_with_data_def)
qed

text \<open>
  C10 at a concrete input: after three registrations and the revocation of handle 2,
  registering a null callback returns handle 4 and stores it in slot 1; the empty simple
  registries ignore a null callback.
\<close>

theorem register_managed_callback_null_callback_witness:
  "registrations three_registered_one_revoked < 2147483647 \<and>
   inactive_slots (exec initial_globals three_registered_one_revoked) =
     [1, 3, 4, 5, 6, 7, 8, 9, 10, 11, 12, 13, 14, 15] \<and>
   issued initial_globals three_registered_one_revoked = [1, 2, 3] \<and>
   snd (register_managed_callback (exec initial_globals three_registered_one_revoked)
          NULL (Addr 204)) = 4 \<and>
   managed_callbacks
     (fst (register_managed_callback (exec initial_globals three_registered_one_revoked)
             NULL (Addr 204))) 1 =
     \<lparr>handle = 4, callback = NULL, user_data = Addr 204, active = 1\<rparr> \<and>
   register_simple_callback no_simple_callbacks NULL = no_simple_callbacks \<and>
   register_callback_with_data no_callbacks_with_data NULL (Addr 204) = no_callbacks_with_data"
proof -
  have r: "registrations three_registered_one_revoked < 2147483647"
    by (simp add: three_registered_one_revoked_def)
  have nh: "next_handle (exec initial_globals three_registered_one_revoked) = 4"
    unfolding three_registered_one_revoked_def by (simp add: run_simps)
  have i: "issued initial_globals three_registered_one_revoked = [1, 2, 3]"
    unfolding three_registered_one_revoked_def by (simp add: run_simps)
  from register_managed_callback_null_callback
         [of three_registered_one_revoked "Addr 204" no_simple_callbacks
             no_callbacks_with_data] r
  show ?thesis
    by (simp add: inactive_slots_three_one nh i)
qed

end
